theory Spec2Isabelle
  imports
    Complex_Main
    "HOL-Library.Char_ord"
    "HOL-Library.List_Lexorder"
    "HOL-Library.Multiset"
begin

section \<open>Strings and numbers as Python prints and reads them\<close>

text \<open>
  Member ids, topic names and coordinator node names are byte strings. Python compares
  them byte by byte, a proper prefix being smaller: the order that
  \<^verbatim>\<open>HOL-Library.Char_ord\<close> and \<^verbatim>\<open>HOL-Library.List_Lexorder\<close> give to
  \<^typ>\<open>string\<close>.
\<close>

definition digit_char :: "nat \<Rightarrow> char" where
  "digit_char d = ''0123456789'' ! d"

text \<open>\<^verbatim>\<open>str(n)\<close> for an integer: decimal digits, with a minus sign for a negative number.\<close>

fun str_nat :: "nat \<Rightarrow> string" where
  "str_nat n = (if n < 10 then [digit_char n] else str_nat (n div 10) @ [digit_char (n mod 10)])"

declare str_nat.simps [simp del]

definition str_int :: "int \<Rightarrow> string" where
  "str_int i = (if i < 0 then CHR ''-'' # str_nat (nat (- i)) else str_nat (nat i))"

text \<open>\<^verbatim>\<open>sep.join(parts)\<close>.\<close>

fun join :: "string \<Rightarrow> string list \<Rightarrow> string" where
  "join sep [] = []"
| "join sep [x] = x"
| "join sep (x # y # ys) = x @ sep @ join sep (y # ys)"

text \<open>\<^verbatim>\<open>s.split(c)\<close> for a one-character separator: never an empty list.\<close>

fun split_on :: "char \<Rightarrow> string \<Rightarrow> string list" where
  "split_on c [] = [[]]"
| "split_on c (x # xs) =
     (if x = c then [] # split_on c xs
      else (case split_on c xs of w # ws \<Rightarrow> (x # w) # ws | [] \<Rightarrow> [[x]]))"

definition is_digit :: "char \<Rightarrow> bool" where
  "is_digit c \<longleftrightarrow> c \<in> set ''0123456789''"

definition is_space :: "char \<Rightarrow> bool" where
  "is_space c \<longleftrightarrow> c \<in> {CHR '' '', CHR 0x09, CHR 0x0A, CHR 0x0B, CHR 0x0C, CHR 0x0D}"

definition digit_value :: "char \<Rightarrow> nat" where
  "digit_value c = of_char c - 48"

definition digits_value :: "string \<Rightarrow> nat" where
  "digits_value ds = foldl (\<lambda>a c. 10 * a + digit_value c) 0 ds"

section \<open>Partitions and the topic\<close>

text \<open>
  A partition as \<^verbatim>\<open>_decide_partitions\<close> and the ownership registry read it:
  \<^verbatim>\<open>p.topic.name\<close>, \<^verbatim>\<open>p.leader.id\<close> and \<^verbatim>\<open>p.id\<close>. The topic holds its partitions in a
  dict from partition id to partition, kept here as an association list in the dict's
  iteration order.
\<close>

record partition =
  p_topic_name :: string
  p_leader_id :: int
  p_id :: int

record topic =
  t_name :: string
  t_partitions :: "(int \<times> partition) list"

text \<open>\<^verbatim>\<open>self._topic.partitions.values()\<close>.\<close>

definition partition_values :: "topic \<Rightarrow> partition list" where
  "partition_values tp = map snd (t_partitions tp)"

text \<open>
  The sort key of \<^verbatim>\<open>_decide_partitions\<close>:
  \<^verbatim>\<open>p_to_str = lambda p: '-'.join([str(p.topic.name), str(p.leader.id), str(p.id)])\<close>.
\<close>

definition p_to_str :: "partition \<Rightarrow> string" where
  "p_to_str p = join ''-'' [p_topic_name p, str_int (p_leader_id p), str_int (p_id p)]"

section \<open>Errors\<close>

datatype error =
    ValueError
  | ZeroDivisionError
  | IndexError
  | KeyError
  | AttributeError
  | KafkaException
  | PartitionOwnedError partition
  | ConsumerStoppedException
  | NoPartitionsForConsumerException
  | NoNodeException
  | NodeExistsError
  | BrokerPathMissing
  | OtherError string

section \<open>The assignment function\<close>

text \<open>\<^verbatim>\<open>xs.index(x)\<close>: the first position of \<open>x\<close>, or \<^verbatim>\<open>ValueError\<close>.\<close>

fun index_of :: "'a list \<Rightarrow> 'a \<Rightarrow> error + nat" where
  "index_of [] x = Inl ValueError"
| "index_of (y # ys) x =
     (if y = x then Inr 0
      else (case index_of ys x of Inl e \<Rightarrow> Inl e | Inr n \<Rightarrow> Inr (Suc n)))"

text \<open>\<^verbatim>\<open>itertools.islice(xs, start, stop)\<close> for \<open>0 \<le> start\<close>, as a list.\<close>

definition islice :: "'a list \<Rightarrow> nat \<Rightarrow> nat \<Rightarrow> 'a list" where
  "islice xs start stop = take (stop - start) (drop start xs)"

text \<open>
  \<^verbatim>\<open>_decide_partitions(self, participants)\<close>, lines 372 to 392, for the topic \<open>tp\<close> and
  the member id \<open>consumer_id\<close> of \<^verbatim>\<open>self\<close>. \<open>decide_slice\<close> is the iterator
  \<^verbatim>\<open>new_partitions\<close> of line 387, \<open>decide_partitions\<close> the set of line 388 that the
  function returns. \<^verbatim>\<open>participants.index\<close> raises before the division is reached, so
  the division by an empty participant list never runs; the branch is kept as the source
  has it.
\<close>

definition decide_slice :: "topic \<Rightarrow> string \<Rightarrow> string list \<Rightarrow> error + partition list" where
  "decide_slice tp consumer_id participants =
     (let all_parts = sort_key p_to_str (partition_values tp);
          participants = sort participants
      in case index_of participants consumer_id of
           Inl e \<Rightarrow> Inl e
         | Inr idx \<Rightarrow>
             if length participants = 0 then Inl ZeroDivisionError
             else
               let parts_per_consumer = length all_parts div length participants;
                   remainder_ppc = length all_parts mod length participants;
                   start = parts_per_consumer * idx + min idx remainder_ppc;
                   num_parts = parts_per_consumer + (if idx + 1 > remainder_ppc then 0 else 1)
               in Inr (islice all_parts start (start + num_parts)))"

definition decide_partitions :: "topic \<Rightarrow> string \<Rightarrow> string list \<Rightarrow> error + partition set" where
  "decide_partitions tp consumer_id participants =
     (case decide_slice tp consumer_id participants of
        Inl e \<Rightarrow> Inl e
      | Inr new_partitions \<Rightarrow> Inr (set new_partitions))"

section \<open>Reading numbers and list items\<close>

text \<open>
  \<^verbatim>\<open>int(s)\<close> on a string: blanks around the number are dropped, one sign is read, and
  what is left must be decimal digits; anything else raises \<^verbatim>\<open>ValueError\<close>.
\<close>

definition strip :: "string \<Rightarrow> string" where
  "strip s = rev (dropWhile is_space (rev (dropWhile is_space s)))"

definition int_of_str :: "string \<Rightarrow> error + int" where
  "int_of_str s =
     (let t = strip s;
          neg = (t \<noteq> [] \<and> hd t = CHR ''-'');
          ds = (if t \<noteq> [] \<and> (hd t = CHR ''-'' \<or> hd t = CHR ''+'') then tl t else t)
      in if ds = [] \<or> \<not> list_all is_digit ds then Inl ValueError
         else Inr (if neg then - int (digits_value ds) else int (digits_value ds)))"

text \<open>\<^verbatim>\<open>xs[i]\<close> for \<open>0 \<le> i\<close>: \<^verbatim>\<open>IndexError\<close> past the end.\<close>

definition item :: "'a list \<Rightarrow> nat \<Rightarrow> error + 'a" where
  "item xs i = (if i < length xs then Inr (xs ! i) else Inl IndexError)"

text \<open>\<^verbatim>\<open>d[k]\<close> on a dict: \<^verbatim>\<open>KeyError\<close> for a missing key.\<close>

definition lookup :: "('k \<times> 'v) list \<Rightarrow> 'k \<Rightarrow> error + 'v" where
  "lookup d k = (case map_of d k of None \<Rightarrow> Inl KeyError | Some v \<Rightarrow> Inr v)"

section \<open>The coordinator, the inner consumer and the balanced consumer\<close>

text \<open>
  The coordination service as the consumer reads and writes it: the children of
  \<^verbatim>\<open>/consumers/<group>/ids\<close> (member id and registered topic name), the children of
  \<^verbatim>\<open>/consumers/<group>/owners/<topic>\<close> (node name \<^verbatim>\<open><leader>-<partition>\<close> and owning
  member id), each \<open>None\<close> while the path itself does not exist, and whether the two
  broker paths exist. Node names are unique below a path.
\<close>

record zk_state =
  zk_ids :: "(string \<times> string) list option"
  zk_owners :: "(string \<times> string) list option"
  zk_brokers_ids :: bool
  zk_brokers_topics :: bool

datatype zk_path = ConsumerIdNode string | OwnerNode string

datatype message = Message int string

text \<open>
  The inner \<^verbatim>\<open>SimpleConsumer\<close>, as far as the balanced consumer touches it:
  \<^verbatim>\<open>_partitions_by_id\<close> (partition id to owned partition), the
  \<^verbatim>\<open>reset_offset_on_start\<close> it was built with, and whether it is running.
\<close>

record owned_partition =
  op_partition :: partition
  op_last_offset_consumed :: int

record simple_consumer =
  sc_partitions_by_id :: "(int \<times> owned_partition) list"
  sc_reset_offset_on_start :: bool
  sc_running :: bool

text \<open>
  What the program does to the world outside itself, in the order it does it. The trace
  records calls: \<open>StopCalled\<close> is the entry into \<^verbatim>\<open>stop()\<close>, \<open>Sleep d\<close> is
  \<^verbatim>\<open>time.sleep(d)\<close> with \<open>d\<close> in seconds.
\<close>

datatype event =
    LockAcquire
  | LockRelease
  | Sleep real
  | ZkCreate zk_path string
  | ZkDelete zk_path
  | ZkSessionStart
  | ZkSessionStop
  | InnerCommit
  | InnerReset
  | InnerStop
  | InnerCreate "partition list" bool
  | StopCalled
  | CheckerSpawn
  | LogWorkerTrace
  | LogStartError

text \<open>
  What the collaborators outside this file do when called. Each is a parameter of the
  model: the coordination service a new client session reaches and whether opening the
  session fails, whether spawning the checker fails, whether the inner consumer's
  \<^verbatim>\<open>commit_offsets\<close> and \<^verbatim>\<open>reset_offsets\<close> fail, what its successive \<^verbatim>\<open>consume\<close>
  calls give, the offset a newly owned partition starts with, the successive readings of
  \<^verbatim>\<open>time.time()\<close>, what the other members of the group do to the coordinator during the
  \<open>n\<close>-th sleep of this member, the order in which Python iterates a set of
  partitions (given as the list of its elements), and whether the inner consumer's
  \<^verbatim>\<open>_partitions_by_id\<close> has a method \<^verbatim>\<open>itervalues\<close>: a dict of Python 2 has it, a
  dict of Python 3 has not (the file imports its helpers from \<^verbatim>\<open>utils.compat\<close> and is
  written for both).
\<close>

record world =
  zk_server :: zk_state
  zk_start_error :: "error option"
  spawn_error :: "error option"
  inner_commit_error :: "error option"
  inner_reset_error :: "error option"
  inner_consume :: "nat \<Rightarrow> error + message option"
  initial_offset :: "partition \<Rightarrow> int"
  clock :: "nat \<Rightarrow> real"
  peers :: "nat \<Rightarrow> zk_state \<Rightarrow> zk_state"
  set_order :: "partition list \<Rightarrow> partition list"
  dict_itervalues :: bool

text \<open>
  The \<^verbatim>\<open>BalancedConsumer\<close> object: the settings and fields of \<^verbatim>\<open>__init__\<close> that the
  modelled methods read, the lock (\<open>True\<close> while held), the coordinator as the client
  \<^verbatim>\<open>self._zookeeper\<close> sees it (\<open>None\<close> while there is no client), the counters of the
  calls answered by the world, and the trace.
\<close>

record consumer =
  topic :: topic
  consumer_id :: string
  rebalance_max_retries :: int
  rebalance_backoff_ms :: int
  consumer_timeout_ms :: int
  reset_offset_on_start :: bool
  owns_zookeeper :: bool
  running :: bool
  worker_exception :: "error option"
  worker_trace_logged :: bool
  rebalancing_lock :: bool
  inner :: "simple_consumer option"
  setting_watches :: bool
  zookeeper :: "zk_state option"
  last_message_time :: real
  env :: world
  consume_calls :: nat
  clock_reads :: nat
  sleeps :: nat
  trace :: "event list"

section \<open>Running a method: results, sequencing, exceptions\<close>

text \<open>
  A method call returns a value, raises an exception, or never returns because it waits
  for a lock that its own thread holds (\<open>Blocked\<close>); it also leaves a new state. An
  \<^verbatim>\<open>except Exception\<close> handler catches what is raised, never a call that does not
  return.
\<close>

datatype 'a result = Return 'a | Raise error | Blocked

type_synonym 'a action = "consumer \<Rightarrow> 'a result \<times> consumer"

definition return :: "'a \<Rightarrow> 'a action" where
  "return x s = (Return x, s)"

definition raise :: "error \<Rightarrow> 'a action" where
  "raise e s = (Raise e, s)"

definition and_then :: "'a action \<Rightarrow> ('a \<Rightarrow> 'b action) \<Rightarrow> 'b action" where
  "and_then m f s =
     (case m s of
        (Return x, s') \<Rightarrow> f x s'
      | (Raise e, s') \<Rightarrow> (Raise e, s')
      | (Blocked, s') \<Rightarrow> (Blocked, s'))"

definition catch :: "'a action \<Rightarrow> (error \<Rightarrow> 'a action) \<Rightarrow> 'a action" where
  "catch m h s =
     (case m s of
        (Raise e, s') \<Rightarrow> h e s'
      | (r, s') \<Rightarrow> (r, s'))"

definition lift :: "error + 'a \<Rightarrow> 'a action" where
  "lift r s = (case r of Inl e \<Rightarrow> (Raise e, s) | Inr x \<Rightarrow> (Return x, s))"

definition emit :: "event \<Rightarrow> unit action" where
  "emit ev s = (Return (), s\<lparr>trace := trace s @ [ev]\<rparr>)"

text \<open>
  \<^verbatim>\<open>with self._rebalancing_lock:\<close> on a lock that is not reentrant. The lock is released
  when the body returns and when it raises.
\<close>

definition with_lock :: "'a action \<Rightarrow> 'a action" where
  "with_lock body s =
     (if rebalancing_lock s then (Blocked, s)
      else
        (case body (s\<lparr>rebalancing_lock := True, trace := trace s @ [LockAcquire]\<rparr>) of
           (Blocked, s') \<Rightarrow> (Blocked, s')
         | (r, s') \<Rightarrow> (r, s'\<lparr>rebalancing_lock := False, trace := trace s' @ [LockRelease]\<rparr>)))"

section \<open>Coordinator client calls\<close>

text \<open>An attribute of \<^verbatim>\<open>self._zookeeper\<close>: \<^verbatim>\<open>AttributeError\<close> while it is \<^verbatim>\<open>None\<close>.\<close>

definition zk_client :: "zk_state action" where
  "zk_client s =
     (case zookeeper s of None \<Rightarrow> (Raise AttributeError, s) | Some zk \<Rightarrow> (Return zk, s))"

definition zk_put :: "zk_state \<Rightarrow> unit action" where
  "zk_put zk s = (Return (), s\<lparr>zookeeper := Some zk\<rparr>)"

text \<open>
  \<^verbatim>\<open>create(path_self, topic_name, ephemeral=True, makepath=True)\<close>: the parent path is
  made when missing; \<^verbatim>\<open>NodeExistsError\<close> when the node is there.
\<close>

definition zk_create_id :: "string \<Rightarrow> string \<Rightarrow> unit action" where
  "zk_create_id name val =
     and_then zk_client (\<lambda>zk.
       let ids = (case zk_ids zk of None \<Rightarrow> [] | Some ids \<Rightarrow> ids)
       in if name \<in> fst ` set ids then raise NodeExistsError
          else and_then (zk_put (zk\<lparr>zk_ids := Some (ids @ [(name, val)])\<rparr>))
                 (\<lambda>_. emit (ZkCreate (ConsumerIdNode name) val)))"

text \<open>
  \<^verbatim>\<open>create(path, value=..., ephemeral=True)\<close> below the topic's owners path:
  \<^verbatim>\<open>NoNodeException\<close> when the owners path is missing, \<^verbatim>\<open>NodeExistsError\<close> when the node
  is there.
\<close>

definition zk_create_owner :: "string \<Rightarrow> string \<Rightarrow> unit action" where
  "zk_create_owner name val =
     and_then zk_client (\<lambda>zk.
       case zk_owners zk of
         None \<Rightarrow> raise NoNodeException
       | Some owners \<Rightarrow>
           if name \<in> fst ` set owners then raise NodeExistsError
           else and_then (zk_put (zk\<lparr>zk_owners := Some (owners @ [(name, val)])\<rparr>))
                  (\<lambda>_. emit (ZkCreate (OwnerNode name) val)))"

text \<open>\<^verbatim>\<open>delete(path)\<close>: \<^verbatim>\<open>NoNodeException\<close> when the node is not there.\<close>

definition zk_delete_owner :: "string \<Rightarrow> unit action" where
  "zk_delete_owner name =
     and_then zk_client (\<lambda>zk.
       case zk_owners zk of
         None \<Rightarrow> raise NoNodeException
       | Some owners \<Rightarrow>
           if name \<notin> fst ` set owners then raise NoNodeException
           else and_then
                  (zk_put (zk\<lparr>zk_owners := Some (filter (\<lambda>(n, v). n \<noteq> name) owners)\<rparr>))
                  (\<lambda>_. emit (ZkDelete (OwnerNode name))))"

definition zk_delete_id :: "string \<Rightarrow> unit action" where
  "zk_delete_id name =
     and_then zk_client (\<lambda>zk.
       case zk_ids zk of
         None \<Rightarrow> raise NoNodeException
       | Some ids \<Rightarrow>
           if name \<notin> fst ` set ids then raise NoNodeException
           else and_then (zk_put (zk\<lparr>zk_ids := Some (filter (\<lambda>(n, v). n \<noteq> name) ids)\<rparr>))
                  (\<lambda>_. emit (ZkDelete (ConsumerIdNode name))))"

text \<open>\<^verbatim>\<open>ensure_path(self._topic_path)\<close>.\<close>

definition zk_ensure_owners_path :: "unit action" where
  "zk_ensure_owners_path =
     and_then zk_client (\<lambda>zk.
       case zk_owners zk of
         None \<Rightarrow> zk_put (zk\<lparr>zk_owners := Some []\<rparr>)
       | Some owners \<Rightarrow> return ())"

text \<open>
  \<^verbatim>\<open>self._zookeeper.stop()\<close>: the session ends, and with it the ephemeral nodes this
  member created, its participant record and its ownership records.
\<close>

definition zk_stop :: "unit action" where
  "zk_stop =
     and_then zk_client (\<lambda>zk s.
       and_then
         (zk_put (zk\<lparr>zk_ids := map_option (filter (\<lambda>(n, v). n \<noteq> consumer_id s)) (zk_ids zk),
                     zk_owners := map_option (filter (\<lambda>(n, v). v \<noteq> consumer_id s)) (zk_owners zk)\<rparr>))
         (\<lambda>_. emit ZkSessionStop) s)"

section \<open>The inner consumer\<close>

text \<open>
  Modelled from the spec: the \<^verbatim>\<open>SimpleConsumer\<close> class (its file is not among the
  sources). The spec gives its interface: it is constructed with a partition set, it can
  be stopped, it commits and resets offsets, and \<^verbatim>\<open>_partitions_by_id\<close> maps a partition
  id to the partition and its last consumed offset. Its \<^verbatim>\<open>partitions\<close> property is the
  dict from partition id to partition of the partitions it holds.
\<close>

definition new_simple_consumer :: "world \<Rightarrow> partition list \<Rightarrow> bool \<Rightarrow> simple_consumer" where
  "new_simple_consumer w parts reset =
     \<lparr>sc_partitions_by_id =
        map (\<lambda>p. (p_id p, \<lparr>op_partition = p, op_last_offset_consumed = initial_offset w p\<rparr>)) parts,
      sc_reset_offset_on_start = reset,
      sc_running = True\<rparr>"

definition sc_partitions :: "simple_consumer \<Rightarrow> (int \<times> partition) list" where
  "sc_partitions c = map (\<lambda>(i, owned). (i, op_partition owned)) (sc_partitions_by_id c)"

text \<open>\<^verbatim>\<open>self._consumer.stop()\<close>, \<^verbatim>\<open>.commit_offsets()\<close> and \<^verbatim>\<open>.reset_offsets(...)\<close>.\<close>

definition inner_stop :: "unit action" where
  "inner_stop s =
     (case inner s of
        None \<Rightarrow> (Raise AttributeError, s)
      | Some c \<Rightarrow>
          (Return (), s\<lparr>inner := Some (c\<lparr>sc_running := False\<rparr>), trace := trace s @ [InnerStop]\<rparr>))"

definition inner_commit_offsets :: "unit action" where
  "inner_commit_offsets s =
     (case inner s of
        None \<Rightarrow> (Raise AttributeError, s)
      | Some c \<Rightarrow>
          (case inner_commit_error (env s) of
             None \<Rightarrow> (Return (), s\<lparr>trace := trace s @ [InnerCommit]\<rparr>)
           | Some e \<Rightarrow> (Raise e, s\<lparr>trace := trace s @ [InnerCommit]\<rparr>)))"

definition inner_reset_offsets :: "unit action" where
  "inner_reset_offsets s =
     (case inner s of
        None \<Rightarrow> (Raise AttributeError, s)
      | Some c \<Rightarrow>
          (case inner_reset_error (env s) of
             None \<Rightarrow> (Return (), s\<lparr>trace := trace s @ [InnerReset]\<rparr>)
           | Some e \<Rightarrow> (Raise e, s\<lparr>trace := trace s @ [InnerReset]\<rparr>)))"

section \<open>The balanced consumer's methods\<close>

text \<open>\<^verbatim>\<open>_raise_worker_exceptions\<close>, lines 218 to 226.\<close>

definition raise_worker_exceptions :: "unit action" where
  "raise_worker_exceptions s =
     (case worker_exception s of
        None \<Rightarrow> (Return (), s)
      | Some ex \<Rightarrow>
          if \<not> worker_trace_logged s
          then (Raise ex, s\<lparr>worker_trace_logged := True, trace := trace s @ [LogWorkerTrace]\<rparr>)
          else (Raise ex, s))"

text \<open>
  The properties \<^verbatim>\<open>partitions\<close>, \<^verbatim>\<open>_partitions\<close> and \<^verbatim>\<open>held_offsets\<close>, lines 249 to 265.
  \<open>None\<close> is Python's \<^verbatim>\<open>None\<close>; a \<^verbatim>\<open>SimpleConsumer\<close> object is true in a condition. The
  set \<^verbatim>\<open>_partitions\<close> is kept as the list of its elements. \<^verbatim>\<open>_partitions\<close> goes through
  the helper \<^verbatim>\<open>itervalues\<close> of \<^verbatim>\<open>utils.compat\<close>; \<^verbatim>\<open>held_offsets\<close> calls the method
  \<^verbatim>\<open>.itervalues()\<close> of \<^verbatim>\<open>_partitions_by_id\<close> itself (line 265), which raises
  \<^verbatim>\<open>AttributeError\<close> where a dict has no such method.
\<close>

definition partitions :: "consumer \<Rightarrow> (int \<times> partition) list option" where
  "partitions s = (case inner s of None \<Rightarrow> None | Some c \<Rightarrow> Some (sc_partitions c))"

definition held_partitions :: "consumer \<Rightarrow> partition list" where
  "held_partitions s = (case partitions s of None \<Rightarrow> [] | Some d \<Rightarrow> remdups (map snd d))"

definition held_offsets :: "consumer \<Rightarrow> error + (int \<times> int) list option" where
  "held_offsets s =
     (case inner s of
        None \<Rightarrow> Inr None
      | Some c \<Rightarrow>
          if \<not> dict_itervalues (env s) then Inl AttributeError
          else
            Inr (Some (map (\<lambda>(i, owned). (p_id (op_partition owned), op_last_offset_consumed owned))
                         (sc_partitions_by_id c))))"

text \<open>\<^verbatim>\<open>_setup_internal_consumer(partitions)\<close>, lines 321 to 355.\<close>

definition setup_internal_consumer :: "partition list \<Rightarrow> unit action" where
  "setup_internal_consumer parts s =
     (case inner s of
        None \<Rightarrow>
          (Return (),
           s\<lparr>inner := Some (new_simple_consumer (env s) parts (reset_offset_on_start s)),
             trace := trace s @ [InnerCreate parts (reset_offset_on_start s)]\<rparr>)
      | Some c \<Rightarrow>
          and_then inner_stop
            (\<lambda>_ s'. (Return (),
               s'\<lparr>inner := Some (new_simple_consumer (env s') parts False),
                  trace := trace s' @ [InnerCreate parts False]\<rparr>)) s)"

text \<open>
  \<^verbatim>\<open>_get_participants\<close>, lines 394 to 416. A node that is listed is still there when it
  is read: no other member acts between the two calls.
\<close>

definition get_participants :: "string list action" where
  "get_participants =
     and_then zk_client (\<lambda>zk s.
       case zk_ids zk of
         None \<Rightarrow> (Return [], s)
       | Some ids \<Rightarrow>
           (Return (sort (map fst (filter (\<lambda>(id, tn). tn = t_name (topic s)) ids))), s))"

text \<open>\<^verbatim>\<open>_add_self\<close>, lines 471 to 482.\<close>

definition add_self :: "unit action" where
  "add_self =
     and_then get_participants (\<lambda>participants s.
       if length (t_partitions (topic s)) \<le> length participants then (Raise KafkaException, s)
       else zk_create_id (consumer_id s) (t_name (topic s)) s)"

text \<open>
  The node name of \<^verbatim>\<open>_path_from_partition\<close>, line 558:
  \<^verbatim>\<open>"%s-%s" % (p.leader.id, p.id)\<close> below the topic's owners path.
\<close>

definition partition_slug :: "partition \<Rightarrow> string" where
  "partition_slug p = str_int (p_leader_id p) @ ''-'' @ str_int (p_id p)"

text \<open>\<^verbatim>\<open>_remove_partitions\<close> and \<^verbatim>\<open>_add_partitions\<close>, lines 560 to 584.\<close>

fun remove_partitions :: "partition list \<Rightarrow> consumer \<Rightarrow> unit result \<times> consumer" where
  "remove_partitions [] s = (Return (), s)"
| "remove_partitions (p # ps) s =
     (case zk_delete_owner (partition_slug p) s of
        (Return u, s') \<Rightarrow> remove_partitions ps s'
      | (r, s') \<Rightarrow> (r, s'))"

fun add_partitions :: "partition list \<Rightarrow> consumer \<Rightarrow> unit result \<times> consumer" where
  "add_partitions [] s = (Return (), s)"
| "add_partitions (p # ps) s =
     (case zk_create_owner (partition_slug p) (consumer_id s) s of
        (Return u, s') \<Rightarrow> add_partitions ps s'
      | (Raise NodeExistsError, s') \<Rightarrow> (Raise (PartitionOwnedError p), s')
      | (r, s') \<Rightarrow> (r, s'))"

text \<open>
  \<^verbatim>\<open>_get_held_partitions\<close>, lines 586 to 599. \<open>slug_partition_id\<close> is
  \<^verbatim>\<open>int(partition_slug.split('-')[1])\<close>; \<open>held_ids\<close> is the loop over the children of
  the owners path, giving the ids it adds in the order it adds them; \<open>lookup_all\<close> is
  \<^verbatim>\<open>self._topic.partitions[_id]\<close> for each id. Both sets are kept as lists of their
  elements.
\<close>

definition slug_partition_id :: "string \<Rightarrow> error + int" where
  "slug_partition_id slug =
     (case item (split_on CHR ''-'' slug) 1 of Inl e \<Rightarrow> Inl e | Inr w \<Rightarrow> int_of_str w)"

fun held_ids :: "string \<Rightarrow> (string \<times> string) list \<Rightarrow> error + int list" where
  "held_ids me [] = Inr []"
| "held_ids me ((slug, owner_id) # rest) =
     (if owner_id = me
      then (case slug_partition_id slug of
              Inl e \<Rightarrow> Inl e
            | Inr i \<Rightarrow> (case held_ids me rest of Inl e \<Rightarrow> Inl e | Inr ids \<Rightarrow> Inr (i # ids)))
      else held_ids me rest)"

fun lookup_all :: "(int \<times> partition) list \<Rightarrow> int list \<Rightarrow> error + partition list" where
  "lookup_all d [] = Inr []"
| "lookup_all d (i # ids) =
     (case lookup d i of
        Inl e \<Rightarrow> Inl e
      | Inr p \<Rightarrow> (case lookup_all d ids of Inl e \<Rightarrow> Inl e | Inr ps \<Rightarrow> Inr (p # ps)))"

definition get_held_partitions :: "partition list action" where
  "get_held_partitions =
     and_then zk_client (\<lambda>zk s.
       case zk_owners zk of
         None \<Rightarrow> (Raise NoNodeException, s)
       | Some owners \<Rightarrow>
           (case held_ids (consumer_id s) owners of
              Inl e \<Rightarrow> (Raise e, s)
            | Inr ids \<Rightarrow>
                (case lookup_all (t_partitions (topic s)) (remdups ids) of
                   Inl e \<Rightarrow> (Raise e, s)
                 | Inr ps \<Rightarrow> (Return (remdups ps), s))))"

text \<open>\<^verbatim>\<open>commit_offsets\<close>, lines 702 to 708, and \<^verbatim>\<open>reset_offsets\<close>, lines 646 to 661.\<close>

definition commit_offsets :: "unit action" where
  "commit_offsets = and_then raise_worker_exceptions (\<lambda>_. inner_commit_offsets)"

definition reset_offsets :: "unit action" where
  "reset_offsets =
     and_then raise_worker_exceptions (\<lambda>_ s.
       if inner s = None then (Raise ConsumerStoppedException, s)
       else inner_reset_offsets s)"

text \<open>
  \<^verbatim>\<open>stop\<close>, lines 283 to 304; \<open>stop_tail\<close> is lines 293 to 304, what follows the
  \<^verbatim>\<open>with\<close> block. The inner consumer is stopped and kept: \<^verbatim>\<open>self._consumer\<close> is not set
  back to \<^verbatim>\<open>None\<close>.
\<close>

definition stop_tail :: "unit action" where
  "stop_tail =
     and_then (\<lambda>s. if inner s \<noteq> None then inner_stop s else (Return (), s)) (\<lambda>_ s.
       if owns_zookeeper s then zk_stop s
       else
         and_then get_held_partitions (\<lambda>held.
         and_then (\<lambda>s'. remove_partitions (set_order (env s') held) s') (\<lambda>_ s'.
           catch (zk_delete_id (consumer_id s'))
             (\<lambda>e. if e = NoNodeException then return () else raise e) s')) s)"

definition stop :: "unit action" where
  "stop =
     and_then (emit StopCalled) (\<lambda>_.
     and_then (with_lock (\<lambda>s. (Return (), s\<lparr>running := False\<rparr>))) (\<lambda>_.
     stop_tail))"

text \<open>
  \<^verbatim>\<open>time.sleep(d)\<close>: a negative length is refused. While this member sleeps, the other
  members of the group act on the coordinator.
\<close>

definition sleep :: "real \<Rightarrow> unit action" where
  "sleep d s =
     (if d < 0 then (Raise ValueError, s)
      else (Return (),
            s\<lparr>zookeeper := map_option (peers (env s) (sleeps s)) (zookeeper s),
              sleeps := Suc (sleeps s),
              trace := trace s @ [Sleep d]\<rparr>))"

text \<open>
  \<^verbatim>\<open>_rebalance\<close>, lines 492 to 551. \<open>current_participants\<close> is lines 513 to 517.
  \<open>rebalance_pass\<close> is the body of the \<^verbatim>\<open>try\<close>, lines 513 to 542: it returns \<open>True\<close>
  when it leaves the loop with \<^verbatim>\<open>should_stop\<close> set and \<open>False\<close> when it leaves it after
  \<^verbatim>\<open>Rebalancing Complete\<close>. \<open>rebalance_loop\<close> is the \<^verbatim>\<open>for\<close> loop over the indices
  that are left, with its \<^verbatim>\<open>except\<close> clause, and gives the value of \<^verbatim>\<open>should_stop\<close>
  after the loop. \<open>rebalance_locked\<close> is lines 501 to 551, what follows the commit of
  lines 497 and 498. The Python sets \<^verbatim>\<open>new_partitions\<close> and
  \<^verbatim>\<open>current_zk_parts\<close> are kept as lists of their elements and iterated in the world's
  order.
\<close>

definition set_diff :: "'a list \<Rightarrow> 'a list \<Rightarrow> 'a list" where
  "set_diff xs ys = filter (\<lambda>x. x \<notin> set ys) xs"

definition current_participants :: "string list action" where
  "current_participants =
     and_then get_participants (\<lambda>participants s.
       if consumer_id s \<notin> set participants
       then and_then add_self (\<lambda>_. return (participants @ [consumer_id s])) s
       else (Return participants, s))"

definition rebalance_pass :: "bool action" where
  "rebalance_pass =
     and_then current_participants (\<lambda>participants.
     and_then (\<lambda>s. lift (decide_slice (topic s) (consumer_id s) participants) s) (\<lambda>slice.
       let new_partitions = remdups slice
       in if new_partitions = [] then return True
          else
            and_then get_held_partitions (\<lambda>current_zk_parts.
            and_then (\<lambda>s. remove_partitions
                             (set_order (env s) (set_diff current_zk_parts new_partitions)) s) (\<lambda>_.
            and_then (\<lambda>s. add_partitions
                             (set_order (env s) (set_diff new_partitions current_zk_parts)) s) (\<lambda>_.
            and_then (\<lambda>s. if set new_partitions \<noteq> set (held_partitions s)
                           then setup_internal_consumer (set_order (env s) new_partitions) s
                           else (Return (), s)) (\<lambda>_.
            return False))))))"

fun rebalance_loop :: "nat list \<Rightarrow> consumer \<Rightarrow> bool result \<times> consumer" where
  "rebalance_loop [] s = (Return False, s)"
| "rebalance_loop (i # rest) s =
     (case rebalance_pass s of
        (Raise (PartitionOwnedError p), s') \<Rightarrow>
          if int i = rebalance_max_retries s' - 1 then (Raise (PartitionOwnedError p), s')
          else (case sleep (real i * (real_of_int (rebalance_backoff_ms s') / 1000)) s' of
                  (Return u, s'') \<Rightarrow> rebalance_loop rest s''
                | (Raise e, s'') \<Rightarrow> (Raise e, s'')
                | (Blocked, s'') \<Rightarrow> (Blocked, s''))
      | (r, s') \<Rightarrow> (r, s'))"

definition rebalance_locked :: "unit action" where
  "rebalance_locked =
     and_then
       (with_lock (\<lambda>s. if \<not> running s then (Raise ConsumerStoppedException, s)
                        else rebalance_loop [0..<nat (rebalance_max_retries s)] s)) (\<lambda>should_stop.
       if should_stop then stop else return ())"

definition rebalance :: "unit action" where
  "rebalance =
     and_then (\<lambda>s. if inner s \<noteq> None then commit_offsets s else (Return (), s))
       (\<lambda>_. rebalance_locked)"

text \<open>
  \<^verbatim>\<open>_setup_zookeeper\<close>, lines 309 to 319: the client is stored before its session is
  opened, so it is there when opening fails.
\<close>

definition setup_zookeeper :: "unit action" where
  "setup_zookeeper s =
     (let s' = s\<lparr>zookeeper := Some (zk_server (env s)), trace := trace s @ [ZkSessionStart]\<rparr>
      in case zk_start_error (env s) of None \<Rightarrow> (Return (), s') | Some e \<Rightarrow> (Raise e, s'))"

text \<open>
  \<^verbatim>\<open>_set_watches\<close>, lines 432 to 469. A watch on a missing path raises
  \<^verbatim>\<open>NoNodeException\<close>, which the first watch turns into a plain \<^verbatim>\<open>Exception\<close>
  (\<open>BrokerPathMissing\<close>). A watch calls its callback once when it is installed; with
  \<^verbatim>\<open>_setting_watches\<close> set the callbacks of lines 616 to 644 return at once and change
  nothing.
\<close>

definition set_watches :: "unit action" where
  "set_watches s0 =
     (let s = s0\<lparr>setting_watches := True\<rparr>
      in case zookeeper s of
           None \<Rightarrow> (Raise AttributeError, s)
         | Some zk \<Rightarrow>
             if \<not> zk_brokers_ids zk then (Raise BrokerPathMissing, s)
             else if \<not> zk_brokers_topics zk then (Raise NoNodeException, s)
             else if zk_ids zk = None then (Raise NoNodeException, s)
             else (Return (), s\<lparr>setting_watches := False\<rparr>))"

text \<open>
  \<^verbatim>\<open>_setup_checker_worker\<close>, lines 228 to 247: the checker runs on a thread of its own;
  the model has the spawn only.
\<close>

definition setup_checker_worker :: "unit action" where
  "setup_checker_worker s =
     (case spawn_error (env s) of
        None \<Rightarrow> (Return (), s\<lparr>trace := trace s @ [CheckerSpawn]\<rparr>)
      | Some e \<Rightarrow> (Raise e, s))"

text \<open>
  \<^verbatim>\<open>start\<close>, lines 267 to 281. \<open>start_body\<close> is the body of the \<^verbatim>\<open>try\<close>; the handler
  logs, calls \<^verbatim>\<open>stop\<close> and ends without a \<^verbatim>\<open>raise\<close>.
\<close>

definition start_body :: "unit action" where
  "start_body =
     and_then (\<lambda>s. if zookeeper s = None then setup_zookeeper s else (Return (), s)) (\<lambda>_.
     and_then zk_ensure_owners_path (\<lambda>_.
     and_then add_self (\<lambda>_.
     and_then (\<lambda>s. (Return (), s\<lparr>running := True\<rparr>)) (\<lambda>_.
     and_then set_watches (\<lambda>_.
     and_then rebalance (\<lambda>_.
     setup_checker_worker))))))"

definition start :: "unit action" where
  "start = catch start_body (\<lambda>e. and_then (emit LogStartError) (\<lambda>_. stop))"

text \<open>
  The statements of \<^verbatim>\<open>start\<close> before the call of \<^verbatim>\<open>_rebalance\<close>, lines 270 to 276.
\<close>

definition start_prefix :: "unit action" where
  "start_prefix =
     and_then (\<lambda>s. if zookeeper s = None then setup_zookeeper s else (Return (), s)) (\<lambda>_.
     and_then zk_ensure_owners_path (\<lambda>_.
     and_then add_self (\<lambda>_.
     and_then (\<lambda>s. (Return (), s\<lparr>running := True\<rparr>)) (\<lambda>_.
     set_watches))))"

text \<open>
  \<^verbatim>\<open>__init__\<close>, lines 161 to 204: the fields are set, and with \<^verbatim>\<open>auto_start\<close> (the
  default) \<^verbatim>\<open>start\<close> is called on the new object; what \<^verbatim>\<open>start\<close> raises leaves the
  constructor. \<open>injected\<close> is the \<^verbatim>\<open>zookeeper\<close> argument, \<open>cid\<close> the member id made
  from the host name and a new uuid.
\<close>

definition init ::
  "topic \<Rightarrow> string \<Rightarrow> int \<Rightarrow> int \<Rightarrow> int \<Rightarrow> bool \<Rightarrow> zk_state option \<Rightarrow> bool \<Rightarrow> world
     \<Rightarrow> unit result \<times> consumer" where
  "init tp cid max_retries backoff_ms timeout_ms reset injected auto_start w =
    (let s =
     \<lparr>topic = tp,
      consumer_id = cid,
      rebalance_max_retries = max_retries,
      rebalance_backoff_ms = backoff_ms,
      consumer_timeout_ms = timeout_ms,
      reset_offset_on_start = reset,
      owns_zookeeper = (injected = None),
      running = False,
      worker_exception = None,
      worker_trace_logged = False,
      rebalancing_lock = False,
      inner = None,
      setting_watches = True,
      zookeeper = injected,
      last_message_time = 0,
      env = w,
      consume_calls = 0,
      clock_reads = 0,
      sleeps = 0,
      trace = []\<rparr>
     in if auto_start then start s else (Return (), s))"

text \<open>
  \<^verbatim>\<open>consume\<close>, lines 663 to 692. \<open>time_now\<close> is \<^verbatim>\<open>time.time()\<close>, read as a real number.
  The \<^verbatim>\<open>while\<close> loop may run for ever; \<open>consume_loop\<close> runs at most the given number of
  rounds and gives \<open>None\<close> when they do not suffice.
\<close>

definition time_now :: "real action" where
  "time_now s = (Return (clock (env s) (clock_reads s)), s\<lparr>clock_reads := Suc (clock_reads s)\<rparr>)"

definition consumer_timed_out :: "bool action" where
  "consumer_timed_out s =
     (if consumer_timeout_ms s = - 1 then (Return False, s)
      else and_then time_now
             (\<lambda>now s'. (Return (real_of_int (consumer_timeout_ms s')
                                 < (now - last_message_time s') * 1000), s')) s)"

definition inner_consume_call :: "message option action" where
  "inner_consume_call s =
     (case inner s of
        None \<Rightarrow> (Raise AttributeError, s)
      | Some c \<Rightarrow>
          (case inner_consume (env s) (consume_calls s) of
             Inl e \<Rightarrow> (Raise e, s\<lparr>consume_calls := Suc (consume_calls s)\<rparr>)
           | Inr m \<Rightarrow> (Return m, s\<lparr>consume_calls := Suc (consume_calls s)\<rparr>)))"

fun consume_loop ::
  "nat \<Rightarrow> bool \<Rightarrow> message option \<Rightarrow> consumer \<Rightarrow> (message option result \<times> consumer) option" where
  "consume_loop 0 block message s = None"
| "consume_loop (Suc n) block message s =
     (if message \<noteq> None then Some (Return message, s)
      else
        (case consumer_timed_out s of
           (Return True, s1) \<Rightarrow> Some (Return message, s1)
         | (Return False, s1) \<Rightarrow>
             (case raise_worker_exceptions s1 of
                (Return u, s2) \<Rightarrow>
                  (case inner_consume_call s2 of
                     (Return m, s3) \<Rightarrow>
                       (case (if m \<noteq> None
                              then and_then time_now
                                     (\<lambda>now s'. (Return (), s'\<lparr>last_message_time := now\<rparr>)) s3
                              else (Return (), s3)) of
                          (v, s4) \<Rightarrow>
                            if \<not> block then Some (Return m, s4)
                            else consume_loop n block m s4)
                   | (Raise ConsumerStoppedException, s3) \<Rightarrow>
                       if \<not> running s3 then Some (Return None, s3)
                       else consume_loop n block message s3
                   | (r, s3) \<Rightarrow> Some (r, s3))
              | (Raise e, s2) \<Rightarrow> Some (Raise e, s2)
              | (Blocked, s2) \<Rightarrow> Some (Blocked, s2))
         | (Raise e, s1) \<Rightarrow> Some (Raise e, s1)
         | (Blocked, s1) \<Rightarrow> Some (Blocked, s1)))"

definition consume :: "nat \<Rightarrow> bool \<Rightarrow> consumer \<Rightarrow> (message option result \<times> consumer) option" where
  "consume fuel block s =
     (if held_partitions s = [] then Some (Raise NoPartitionsForConsumerException, s)
      else
        (case time_now s of
           (Return now, s1) \<Rightarrow> consume_loop fuel block None (s1\<lparr>last_message_time := now\<rparr>)
         | (Raise e, s1) \<Rightarrow> Some (Raise e, s1)
         | (Blocked, s1) \<Rightarrow> Some (Blocked, s1)))"

section \<open>The assignment as the specification words it\<close>

text \<open>
  The specification's procedure for the assignment function, step by step: sort \<open>T\<close> by
  the string key \<^verbatim>\<open>topic-<leader_id>-<partition_id>\<close>, sort \<open>P\<close>, let \<open>n = |T|\<close>,
  \<open>k = |P|\<close> and \<open>idx\<close> the position of \<open>self\<close> in \<open>P\<close>, \<open>base = n / k\<close>,
  \<open>rem = n mod k\<close>, \<open>start = base * idx + min(idx, rem)\<close>,
  \<open>count = base + (1 if idx < rem else 0)\<close>, and the result is
  \<open>T[start : start + count]\<close>. These definitions follow the specification, not the
  source: \<open>spec_key\<close> is the key as the specification writes it, the topic name, the
  leader id and the partition id in decimal with a dash between them, and \<open>assign_spec\<close>
  uses nothing of \<open>decide_slice\<close>. The theorems compare it with \<open>decide_partitions\<close>.
\<close>

definition spec_key :: "partition \<Rightarrow> string" where
  "spec_key p = p_topic_name p @ ''-'' @ str_int (p_leader_id p) @ ''-'' @ str_int (p_id p)"

definition position :: "'a list \<Rightarrow> 'a \<Rightarrow> nat" where
  "position xs x = length (takeWhile (\<lambda>y. y \<noteq> x) xs)"

definition assign_spec :: "string list \<Rightarrow> partition list \<Rightarrow> string \<Rightarrow> partition list" where
  "assign_spec P T self =
     (let T = sort_key spec_key T;
          P = sort P;
          n = length T;
          k = length P;
          idx = position P self;
          base = n div k;
          rem = n mod k;
          start = base * idx + min idx rem;
          count = base + (if idx < rem then 1 else 0)
      in take count (drop start T))"

text \<open>Where the slice of the member at index \<open>i\<close> starts, for \<open>n\<close> partitions and \<open>k\<close> members.\<close>

definition slice_start :: "nat \<Rightarrow> nat \<Rightarrow> nat \<Rightarrow> nat" where
  "slice_start n k i = (n div k) * i + min i (n mod k)"

section \<open>Reading traces and comparing states\<close>

text \<open>The events a call added to the trace.\<close>

definition new_events :: "consumer \<Rightarrow> consumer \<Rightarrow> event list" where
  "new_events s s' = drop (length (trace s)) (trace s')"

text \<open>
  The events of the registry and of the inner consumer, the sleeps, and the events that
  are neither a lock operation nor an entry into \<^verbatim>\<open>stop\<close>.
\<close>

fun is_registry_event :: "event \<Rightarrow> bool" where
  "is_registry_event (ZkCreate path val) = True"
| "is_registry_event (ZkDelete path) = True"
| "is_registry_event ZkSessionStop = True"
| "is_registry_event InnerStop = True"
| "is_registry_event (InnerCreate parts reset) = True"
| "is_registry_event ev = False"

fun is_sleep :: "event \<Rightarrow> bool" where
  "is_sleep (Sleep d) = True"
| "is_sleep ev = False"

fun is_ownership_event :: "event \<Rightarrow> bool" where
  "is_ownership_event (ZkCreate (OwnerNode name) val) = True"
| "is_ownership_event (ZkDelete (OwnerNode name)) = True"
| "is_ownership_event ev = False"

fun is_quiet :: "event \<Rightarrow> bool" where
  "is_quiet LockAcquire = False"
| "is_quiet LockRelease = False"
| "is_quiet StopCalled = False"
| "is_quiet ev = True"

text \<open>
  Reading a trace from a lock state on: every entry into \<^verbatim>\<open>stop\<close> finds the lock free.
\<close>

fun stop_outside_lock :: "bool \<Rightarrow> event list \<Rightarrow> bool" where
  "stop_outside_lock held [] = True"
| "stop_outside_lock held (LockAcquire # evs) = stop_outside_lock True evs"
| "stop_outside_lock held (LockRelease # evs) = stop_outside_lock False evs"
| "stop_outside_lock held (StopCalled # evs) = (\<not> held \<and> stop_outside_lock held evs)"
| "stop_outside_lock held (ev # evs) = stop_outside_lock held evs"

text \<open>
  A step of registry work: it changes the coordinator, the inner consumer and the trace
  only, and adds registry events only. A step of the retry loop may sleep as well.
\<close>

definition registry_step :: "consumer \<Rightarrow> consumer \<Rightarrow> bool" where
  "registry_step s s' \<longleftrightarrow>
     (\<exists>evs. trace s' = trace s @ evs \<and> list_all is_registry_event evs) \<and>
     s' = s\<lparr>zookeeper := zookeeper s', inner := inner s', trace := trace s'\<rparr>"

definition loop_step :: "consumer \<Rightarrow> consumer \<Rightarrow> bool" where
  "loop_step s s' \<longleftrightarrow>
     (\<exists>evs. trace s' = trace s @ evs \<and> list_all (\<lambda>ev. is_registry_event ev \<or> is_sleep ev) evs) \<and>
     s' = s\<lparr>zookeeper := zookeeper s', inner := inner s', sleeps := sleeps s',
            trace := trace s'\<rparr>"

text \<open>
  A well-formed topic: the partition dict has every key once, each partition stands under
  its own id, and broker ids and partition ids are not negative.
\<close>

definition wf_topic :: "topic \<Rightarrow> bool" where
  "wf_topic tp \<longleftrightarrow>
     distinct (map fst (t_partitions tp)) \<and>
     list_all (\<lambda>(i, p). p_id p = i \<and> 0 \<le> p_id p \<and> 0 \<le> p_leader_id p) (t_partitions tp)"

section \<open>Example worlds\<close>

text \<open>
  A topic \<open>t\<close> whose partitions \<open>0, \<dots>, n - 1\<close> are all led by broker \<open>0\<close>, a coordinator
  with given participant and ownership records, and a world in which no collaborator
  fails, the other members do nothing, a set is iterated in the order of its list and a
  dict has \<^verbatim>\<open>itervalues\<close>.
\<close>

definition ex_partition :: "int \<Rightarrow> partition" where
  "ex_partition i = \<lparr>p_topic_name = ''t'', p_leader_id = 0, p_id = i\<rparr>"

definition ex_topic :: "nat \<Rightarrow> topic" where
  "ex_topic n =
     \<lparr>t_name = ''t'', t_partitions = map (\<lambda>i. (int i, ex_partition (int i))) [0..<n]\<rparr>"

text \<open>
  \<open>ex_mixed\<close>: a topic of four partitions whose dict order is the order of the partition
  ids, while broker \<open>2\<close> leads partitions \<open>0\<close> and \<open>2\<close> and broker \<open>1\<close> leads
  partitions \<open>1\<close> and \<open>3\<close>.
\<close>

definition ex_led :: "int \<Rightarrow> int \<Rightarrow> partition" where
  "ex_led leader i = \<lparr>p_topic_name = ''t'', p_leader_id = leader, p_id = i\<rparr>"

definition ex_mixed :: topic where
  "ex_mixed =
     \<lparr>t_name = ''t'',
      t_partitions = [(0, ex_led 2 0), (1, ex_led 1 1), (2, ex_led 2 2), (3, ex_led 1 3)]\<rparr>"

definition ex_zk :: "(string \<times> string) list \<Rightarrow> (string \<times> string) list \<Rightarrow> zk_state" where
  "ex_zk ids owners =
     \<lparr>zk_ids = Some ids, zk_owners = Some owners,
      zk_brokers_ids = True, zk_brokers_topics = True\<rparr>"

definition ex_world :: "zk_state \<Rightarrow> world" where
  "ex_world zk =
     \<lparr>zk_server = zk, zk_start_error = None, spawn_error = None,
      inner_commit_error = None, inner_reset_error = None,
      inner_consume = (\<lambda>n. Inr None), initial_offset = (\<lambda>p. - 1),
      clock = (\<lambda>n. real n), peers = (\<lambda>n zk. zk), set_order = (\<lambda>xs. xs),
      dict_itervalues = True\<rparr>"

text \<open>
  A member that was constructed without \<^verbatim>\<open>auto_start\<close> around an injected coordinator
  client and has been started. \<open>ex_collision\<close>:
  member \<open>b\<close> of the group \<open>a\<close>, \<open>b\<close> on three partitions, whose partition \<open>2\<close> is
  still owned by \<open>a\<close>, with three retries. \<open>ex_crowded\<close>: member \<open>c\<close> of the group
  \<open>a\<close>, \<open>b\<close>, \<open>c\<close> on two partitions. \<open>ex_joining\<close>: member \<open>b\<close> of the group \<open>a\<close>,
  \<open>b\<close> on three partitions, whose partition \<open>2\<close> is free.
\<close>

definition ex_consumer :: "nat \<Rightarrow> string \<Rightarrow> int \<Rightarrow> zk_state \<Rightarrow> consumer" where
  "ex_consumer n cid max_retries zk =
     (snd (init (ex_topic n) cid max_retries 2000 (- 1) False (Some zk) False (ex_world zk)))
       \<lparr>running := True, setting_watches := False\<rparr>"

definition ex_collision :: consumer where
  "ex_collision = ex_consumer 3 ''b'' 3
     (ex_zk [(''a'', ''t''), (''b'', ''t'')]
            [(''0-0'', ''a''), (''0-1'', ''a''), (''0-2'', ''a'')])"

definition ex_joining :: consumer where
  "ex_joining = ex_consumer 3 ''b'' 3
     (ex_zk [(''a'', ''t''), (''b'', ''t'')] [(''0-0'', ''a''), (''0-1'', ''a'')])"

definition ex_crowded :: consumer where
  "ex_crowded = ex_consumer 2 ''c'' 5
     (ex_zk [(''a'', ''t''), (''b'', ''t''), (''c'', ''t'')]
            [(''0-0'', ''a''), (''0-1'', ''b'')])"

text \<open>
  \<open>ex_steady\<close>: member \<open>b\<close> in a steady state, owning partition \<open>2\<close> and holding an
  inner consumer on it. \<open>ex_commit_fails\<close>: the same member when the inner consumer's
  commit fails. \<open>ex_worker_failed\<close>: the same member after a background task stored an
  error. \<open>ex_no_room\<close>: a new member of a group that is already as large as the topic,
  constructed without \<^verbatim>\<open>auto_start\<close>. \<open>ex_new\<close>: a new member that finds one participant
  and a free partition, constructed without \<^verbatim>\<open>auto_start\<close>.
\<close>

definition ex_steady :: consumer where
  "ex_steady =
     (ex_consumer 3 ''b'' 3
        (ex_zk [(''a'', ''t''), (''b'', ''t'')]
               [(''0-0'', ''a''), (''0-1'', ''a''), (''0-2'', ''b'')]))
       \<lparr>inner := Some (new_simple_consumer
                        (ex_world (ex_zk [] [])) [ex_partition 2] False)\<rparr>"

definition ex_commit_fails :: consumer where
  "ex_commit_fails =
     ex_steady\<lparr>env := (env ex_steady)\<lparr>inner_commit_error := Some (OtherError ''commit failed'')\<rparr>\<rparr>"

definition ex_worker_failed :: consumer where
  "ex_worker_failed = ex_steady\<lparr>worker_exception := Some (OtherError ''worker failed'')\<rparr>"

definition ex_no_room :: consumer where
  "ex_no_room =
     snd (init (ex_topic 1) ''b'' 5 2000 (- 1) False None False
            (ex_world (ex_zk [(''a'', ''t'')] [(''0-0'', ''a'')])))"

definition ex_new :: consumer where
  "ex_new =
     snd (init (ex_topic 3) ''b'' 5 2000 (- 1) False None False
            (ex_world (ex_zk [(''a'', ''t'')] [(''0-0'', ''a''), (''0-1'', ''a'')])))"

text \<open>
  \<open>ex_default\<close>: what the constructor gives with \<^verbatim>\<open>auto_start\<close> where \<open>ex_new\<close> is made
  without it. \<open>ex_default_py3\<close>: the same where a dict has no \<^verbatim>\<open>itervalues\<close>.
\<close>

definition ex_default :: "unit result \<times> consumer" where
  "ex_default =
     init (ex_topic 3) ''b'' 5 2000 (- 1) False None True
       (ex_world (ex_zk [(''a'', ''t'')] [(''0-0'', ''a''), (''0-1'', ''a'')]))"

definition ex_default_py3 :: "unit result \<times> consumer" where
  "ex_default_py3 =
     init (ex_topic 3) ''b'' 5 2000 (- 1) False None True
       ((ex_world (ex_zk [(''a'', ''t'')] [(''0-0'', ''a''), (''0-1'', ''a'')]))
          \<lparr>dict_itervalues := False\<rparr>)"

section \<open>The assignment function: proofs\<close>

lemma index_of_Inr_iff:
  "index_of xs x = Inr i \<longleftrightarrow> i < length xs \<and> xs ! i = x \<and> (\<forall>j<i. xs ! j \<noteq> x)"
proof (induction xs arbitrary: i)
  case Nil
  then show ?case by simp
next
  case (Cons y ys)
  show ?case
  proof (cases "y = x")
    case True
    then show ?thesis by (cases i) auto
  next
    case False
    show ?thesis
    proof (cases i)
      case 0
      with False show ?thesis by (auto split: sum.splits)
    next
      case (Suc n)
      with False Cons.IH[of n] show ?thesis
        by (auto split: sum.splits simp: less_Suc_eq_0_disj)
    qed
  qed
qed

lemma index_of_mem: "x \<in> set xs \<Longrightarrow> \<exists>i. index_of xs x = Inr i"
  by (induction xs) (auto split: sum.splits)

lemma index_of_not_mem: "x \<notin> set xs \<Longrightarrow> index_of xs x = Inl ValueError"
  by (induction xs) (auto split: sum.splits)

lemma index_of_nth_distinct:
  "distinct xs \<Longrightarrow> i < length xs \<Longrightarrow> index_of xs (xs ! i) = Inr i"
  by (auto simp: index_of_Inr_iff nth_eq_iff_index_eq)

lemma index_of_position: "x \<in> set xs \<Longrightarrow> index_of xs x = Inr (position xs x)"
  by (induction xs) (auto simp: position_def)

lemma slice_start_0: "slice_start n k 0 = 0"
  by (simp add: slice_start_def)

lemma slice_start_k:
  assumes "0 < k"
  shows "slice_start n k k = n"
proof -
  from assms have "n mod k < k" by simp
  then have "min k (n mod k) = n mod k" by simp
  then show ?thesis by (simp add: slice_start_def)
qed

lemma slice_start_Suc:
  "slice_start n k (Suc i) =
     slice_start n k i + (n div k + (if i + 1 > n mod k then 0 else 1))"
  by (auto simp: slice_start_def min_def)

lemma slice_start_mono: "i \<le> j \<Longrightarrow> slice_start n k i \<le> slice_start n k j"
  unfolding slice_start_def by (intro add_mono mult_le_mono2 min.mono) auto

lemma slice_start_bound:
  assumes "i < k"
  shows "slice_start n k (Suc i) \<le> n"
proof -
  from assms have "slice_start n k (Suc i) \<le> slice_start n k k"
    by (intro slice_start_mono) simp
  moreover from assms have "slice_start n k k = n"
    by (intro slice_start_k) auto
  ultimately show ?thesis by simp
qed

lemma interval_cover:
  fixes f :: "nat \<Rightarrow> nat"
  assumes "f 0 = 0" and "j < f k"
  shows "\<exists>i<k. f i \<le> j \<and> j < f (Suc i)"
  using assms
proof (induction k)
  case 0
  then show ?case by simp
next
  case (Suc k)
  show ?case
  proof (cases "j < f k")
    case True
    with Suc obtain i where "i < k" "f i \<le> j" "j < f (Suc i)" by auto
    then show ?thesis by (auto intro: exI[of _ i])
  next
    case False
    with Suc.prems show ?thesis by (auto intro: exI[of _ k])
  qed
qed

lemma set_islice:
  assumes le: "b \<le> length xs"
  shows "set (islice xs a b) = {xs ! j | j. a \<le> j \<and> j < b}"
proof (cases "a \<le> b")
  case True
  have len: "length (islice xs a b) = b - a"
    using le by (simp add: islice_def)
  have nth: "islice xs a b ! i = xs ! (a + i)" if "i < b - a" for i
    using that le by (simp add: islice_def)
  have "islice xs a b = map (\<lambda>j. xs ! j) [a..<b]"
    by (rule nth_equalityI) (simp_all add: len nth)
  then have "set (islice xs a b) = (\<lambda>j. xs ! j) ` {a..<b}" by simp
  then show ?thesis by auto
next
  case False
  then show ?thesis by (simp add: islice_def)
qed

lemma decide_slice_at:
  assumes "index_of (sort P) m = Inr i"
  shows "decide_slice tp m P =
           Inr (islice (sort_key p_to_str (partition_values tp))
                  (slice_start (length (partition_values tp)) (length P) i)
                  (slice_start (length (partition_values tp)) (length P) (Suc i)))"
proof -
  from assms have "i < length (sort P)" by (simp add: index_of_Inr_iff)
  then have "length P \<noteq> 0" by auto
  with assms show ?thesis
    by (simp add: decide_slice_def Let_def slice_start_Suc) (simp add: slice_start_def)
qed

lemma decide_partitions_at:
  assumes "index_of (sort P) m = Inr i"
  shows "decide_partitions tp m P =
           Inr {sort_key p_to_str (partition_values tp) ! j | j.
                  slice_start (length (partition_values tp)) (length P) i \<le> j \<and>
                  j < slice_start (length (partition_values tp)) (length P) (Suc i)}"
proof -
  from assms have "i < length P" by (simp add: index_of_Inr_iff)
  then have "slice_start (length (partition_values tp)) (length P) (Suc i)
      \<le> length (sort_key p_to_str (partition_values tp))"
    by (simp add: slice_start_bound)
  then show ?thesis
    by (simp add: decide_partitions_def decide_slice_at[OF assms] set_islice)
qed

lemma decide_partitions_disjoint:
  assumes dT: "distinct (partition_values tp)"
    and m: "m \<in> set P" and m': "m' \<in> set P" and ne: "m \<noteq> m'"
    and A: "decide_partitions tp m P = Inr A" and A': "decide_partitions tp m' P = Inr A'"
  shows "A \<inter> A' = {}"
proof -
  let ?T = "sort_key p_to_str (partition_values tp)"
  let ?n = "length (partition_values tp)"
  let ?k = "length P"
  from m obtain i where i: "index_of (sort P) m = Inr i"
    using index_of_mem[of m "sort P"] by auto
  from m' obtain i' where i': "index_of (sort P) m' = Inr i'"
    using index_of_mem[of m' "sort P"] by auto
  from i i' ne have neq: "i \<noteq> i'" by (auto simp: index_of_Inr_iff)
  have il: "i < ?k" and il': "i' < ?k" using i i' by (simp_all add: index_of_Inr_iff)
  have dist: "distinct ?T" using dT by simp
  have Aeq: "A = {?T ! j | j. slice_start ?n ?k i \<le> j \<and> j < slice_start ?n ?k (Suc i)}"
    using A decide_partitions_at[OF i, of tp] by simp
  have A'eq: "A' = {?T ! j | j. slice_start ?n ?k i' \<le> j \<and> j < slice_start ?n ?k (Suc i')}"
    using A' decide_partitions_at[OF i', of tp] by simp
  show ?thesis
  proof (rule ccontr)
    assume "A \<inter> A' \<noteq> {}"
    then obtain p where pA: "p \<in> A" and pA': "p \<in> A'" by auto
    from pA obtain j where j: "p = ?T ! j" "slice_start ?n ?k i \<le> j"
        "j < slice_start ?n ?k (Suc i)"
      unfolding Aeq by blast
    from pA' obtain j' where j': "p = ?T ! j'" "slice_start ?n ?k i' \<le> j'"
        "j' < slice_start ?n ?k (Suc i')"
      unfolding A'eq by blast
    have "j < length ?T" using j(3) slice_start_bound[OF il, of ?n] by simp
    moreover have "j' < length ?T" using j'(3) slice_start_bound[OF il', of ?n] by simp
    ultimately have jj: "j = j'" using dist j(1) j'(1) by (simp add: nth_eq_iff_index_eq)
    from neq consider "Suc i \<le> i'" | "Suc i' \<le> i" by linarith
    then show False
    proof cases
      case 1
      then have "slice_start ?n ?k (Suc i) \<le> slice_start ?n ?k i'" by (rule slice_start_mono)
      with j j' jj show False by simp
    next
      case 2
      then have "slice_start ?n ?k (Suc i') \<le> slice_start ?n ?k i" by (rule slice_start_mono)
      with j j' jj show False by simp
    qed
  qed
qed

lemma decide_partitions_cover:
  assumes dP: "distinct P" and ne: "P \<noteq> []" and p: "p \<in> set (partition_values tp)"
  shows "\<exists>m\<in>set P. \<exists>A. decide_partitions tp m P = Inr A \<and> p \<in> A"
proof -
  let ?T = "sort_key p_to_str (partition_values tp)"
  let ?n = "length (partition_values tp)"
  let ?k = "length P"
  from p have "p \<in> set ?T" by simp
  then obtain j where j: "j < length ?T" "?T ! j = p" by (meson in_set_conv_nth)
  from ne have k: "0 < ?k" by simp
  have "j < slice_start ?n ?k ?k" using j k by (simp add: slice_start_k)
  with interval_cover[of "slice_start ?n ?k" j ?k]
  obtain i where i: "i < ?k" "slice_start ?n ?k i \<le> j" "j < slice_start ?n ?k (Suc i)"
    by (auto simp: slice_start_0)
  let ?m = "sort P ! i"
  have "distinct (sort P)" using dP by simp
  then have idx: "index_of (sort P) ?m = Inr i" using i(1) by (simp add: index_of_nth_distinct)
  have "?m \<in> set (sort P)" using i(1) by (intro nth_mem) simp
  then have mem: "?m \<in> set P" by simp
  from decide_partitions_at[OF idx, of tp] i j
  have "\<exists>A. decide_partitions tp ?m P = Inr A \<and> p \<in> A" by auto
  with mem show ?thesis by blast
qed

lemma decide_partitions_subset:
  assumes A: "decide_partitions tp m P = Inr A"
  shows "A \<subseteq> set (partition_values tp)"
proof -
  from A obtain xs where "decide_slice tp m P = Inr xs" "A = set xs"
    by (auto simp: decide_partitions_def split: sum.splits)
  then show ?thesis
    by (auto simp: decide_slice_def Let_def islice_def split: sum.splits if_splits
        dest!: in_set_takeD in_set_dropD)
qed

lemma decide_slice_mset_cong:
  assumes "mset P = mset P'"
  shows "decide_slice tp m P = decide_slice tp m P'"
proof -
  from assms have "sort P = sort P'"
    by (metis sorted_list_of_multiset_mset)
  then show ?thesis by (simp add: decide_slice_def)
qed

lemma p_to_str_spec_key: "p_to_str p = spec_key p"
  by (simp add: p_to_str_def spec_key_def)

section \<open>Claims about the assignment function\<close>

text \<open>
  Claim C1. For every topic with partition list \<open>T\<close> (the values of its partition dict,
  each partition once) and every list \<open>P\<close> of distinct member ids with a member in it:
  \<open>_decide_partitions\<close> returns an assignment for every member of \<open>P\<close>, the
  assignments of two distinct members of \<open>P\<close> are disjoint, and the union of the
  assignments over all members of \<open>P\<close> is \<open>T\<close>. The list that \<^verbatim>\<open>_rebalance\<close> passes
  always has a member: \<^verbatim>\<open>self\<close> is in it (\<open>current_participants_has_self\<close>, below).
\<close>

theorem assignments_partition_topic:
  assumes "distinct (partition_values tp)" and "distinct P" and "P \<noteq> []"
  shows "(\<forall>m\<in>set P. \<exists>A. decide_partitions tp m P = Inr A)
       \<and> (\<forall>m\<in>set P. \<forall>m'\<in>set P. \<forall>A A'.
            m \<noteq> m' \<and> decide_partitions tp m P = Inr A \<and> decide_partitions tp m' P = Inr A'
            \<longrightarrow> A \<inter> A' = {})
       \<and> \<Union>{A. \<exists>m\<in>set P. decide_partitions tp m P = Inr A} = set (partition_values tp)"
proof (intro conjI)
  show "\<forall>m\<in>set P. \<exists>A. decide_partitions tp m P = Inr A"
  proof
    fix m assume "m \<in> set P"
    then obtain i where "index_of (sort P) m = Inr i"
      using index_of_mem[of m "sort P"] by auto
    from decide_partitions_at[OF this] show "\<exists>A. decide_partitions tp m P = Inr A" by blast
  qed
  show "\<forall>m\<in>set P. \<forall>m'\<in>set P. \<forall>A A'.
            m \<noteq> m' \<and> decide_partitions tp m P = Inr A \<and> decide_partitions tp m' P = Inr A'
            \<longrightarrow> A \<inter> A' = {}"
    using decide_partitions_disjoint[OF assms(1)] by blast
  show "\<Union>{A. \<exists>m\<in>set P. decide_partitions tp m P = Inr A} = set (partition_values tp)"
  proof
    show "\<Union>{A. \<exists>m\<in>set P. decide_partitions tp m P = Inr A} \<subseteq> set (partition_values tp)"
      using decide_partitions_subset by blast
    show "set (partition_values tp) \<subseteq> \<Union>{A. \<exists>m\<in>set P. decide_partitions tp m P = Inr A}"
      using decide_partitions_cover[OF assms(2,3)] by blast
  qed
qed

text \<open>The theorem at the topic of five partitions and the members \<open>a\<close>, \<open>b\<close>, \<open>c\<close>.\<close>

theorem assignments_partition_topic_witness:
  "distinct (partition_values (ex_topic 5)) \<and> distinct [''a'', ''b'', ''c'']
   \<and> [''a'', ''b'', ''c''] \<noteq> []
   \<and> \<Union>{A. \<exists>m\<in>set [''a'', ''b'', ''c'']. decide_partitions (ex_topic 5) m [''a'', ''b'', ''c''] = Inr A}
       = set (partition_values (ex_topic 5))
   \<and> decide_partitions (ex_topic 5) ''a'' [''a'', ''b'', ''c'']
       = Inr {ex_partition 0, ex_partition 1}"
proof -
  have d1: "distinct (partition_values (ex_topic 5))" by code_simp
  have d2: "distinct [''a'', ''b'', ''c'']" by simp
  have d3: "[''a'', ''b'', ''c''] \<noteq> []" by simp
  have a: "decide_partitions (ex_topic 5) ''a'' [''a'', ''b'', ''c'']
       = Inr {ex_partition 0, ex_partition 1}"
    by code_simp
  from assignments_partition_topic[OF d1 d2 d3] d1 d2 d3 a show ?thesis by blast
qed

text \<open>
  Claim C2. For every participant list \<open>P\<close> that contains \<open>self\<close> and every topic,
  \<open>_decide_partitions\<close> returns exactly the set of the slice that the specification's
  procedure computes: \<open>T\<close> sorted by the string key \<^verbatim>\<open>topic-leader-partition\<close>
  (\<open>spec_key\<close>), \<open>P\<close> sorted, \<open>idx\<close> the position of \<open>self\<close>,
  \<open>start = base * idx + min(idx, rem)\<close> and \<open>count = base + (1 if idx < rem else 0)\<close>.
  In particular, for the members \<open>a\<close>, \<open>b\<close>, \<open>c\<close> and the partitions \<open>p0, \<dots>, p4\<close>,
  member \<open>a\<close> gets \<open>{p0, p1}\<close>, \<open>b\<close> gets \<open>{p2, p3}\<close> and \<open>c\<close> gets \<open>{p4}\<close>. The
  key is compared as a string and the leader id stands before the partition id: of
  twelve partitions under one leader the first of two members gets \<open>0, 1, 10, 11, 2, 3\<close>,
  and of the four partitions of \<open>ex_mixed\<close> member \<open>a\<close> gets the two led by broker
  \<open>1\<close>, whatever the order of the dict and of the participant list.
\<close>

theorem decide_partitions_is_spec_slice:
  "(\<forall>tp self P. self \<in> set P \<longrightarrow>
      decide_partitions tp self P = Inr (set (assign_spec P (partition_values tp) self)))
   \<and> decide_partitions (ex_topic 5) ''a'' [''a'', ''b'', ''c'']
       = Inr {ex_partition 0, ex_partition 1}
   \<and> decide_partitions (ex_topic 5) ''b'' [''a'', ''b'', ''c'']
       = Inr {ex_partition 2, ex_partition 3}
   \<and> decide_partitions (ex_topic 5) ''c'' [''a'', ''b'', ''c'']
       = Inr {ex_partition 4}
   \<and> decide_slice (ex_topic 12) ''a'' [''a'', ''b'']
       = Inr [ex_partition 0, ex_partition 1, ex_partition 10, ex_partition 11,
              ex_partition 2, ex_partition 3]
   \<and> decide_slice (ex_topic 12) ''b'' [''a'', ''b'']
       = Inr [ex_partition 4, ex_partition 5, ex_partition 6, ex_partition 7,
              ex_partition 8, ex_partition 9]
   \<and> decide_slice ex_mixed ''a'' [''b'', ''a''] = Inr [ex_led 1 1, ex_led 1 3]
   \<and> decide_slice ex_mixed ''b'' [''b'', ''a''] = Inr [ex_led 2 0, ex_led 2 2]
   \<and> decide_partitions ex_mixed ''a'' [''b'', ''a''] = Inr {ex_led 1 1, ex_led 1 3}
   \<and> decide_partitions ex_mixed ''b'' [''b'', ''a''] = Inr {ex_led 2 0, ex_led 2 2}"
proof -
  have general: "decide_partitions tp self P = Inr (set (assign_spec P (partition_values tp) self))"
    if "self \<in> set P" for tp self P
  proof -
    from that have "self \<in> set (sort P)" by simp
    then have idx: "index_of (sort P) self = Inr (position (sort P) self)"
      by (rule index_of_position)
    have key: "sort_key p_to_str xs = sort_key spec_key xs" for xs
      by (simp add: p_to_str_spec_key[abs_def])
    from that have "length P \<noteq> 0" by auto
    with idx show ?thesis
      by (simp add: decide_partitions_def decide_slice_def assign_spec_def Let_def islice_def
          not_less Suc_le_eq key)
  qed
  have a: "decide_partitions (ex_topic 5) ''a'' [''a'', ''b'', ''c'']
       = Inr {ex_partition 0, ex_partition 1}"
    by code_simp
  have b: "decide_partitions (ex_topic 5) ''b'' [''a'', ''b'', ''c'']
       = Inr {ex_partition 2, ex_partition 3}"
    by code_simp
  have c: "decide_partitions (ex_topic 5) ''c'' [''a'', ''b'', ''c'']
       = Inr {ex_partition 4}"
    by code_simp
  have d: "decide_slice (ex_topic 12) ''a'' [''a'', ''b'']
       = Inr [ex_partition 0, ex_partition 1, ex_partition 10, ex_partition 11,
              ex_partition 2, ex_partition 3]"
    by code_simp
  have e: "decide_slice (ex_topic 12) ''b'' [''a'', ''b'']
       = Inr [ex_partition 4, ex_partition 5, ex_partition 6, ex_partition 7,
              ex_partition 8, ex_partition 9]"
    by code_simp
  have f: "decide_slice ex_mixed ''a'' [''b'', ''a''] = Inr [ex_led 1 1, ex_led 1 3]"
    by code_simp
  have g: "decide_slice ex_mixed ''b'' [''b'', ''a''] = Inr [ex_led 2 0, ex_led 2 2]"
    by code_simp
  have h: "decide_partitions ex_mixed ''a'' [''b'', ''a''] = Inr {ex_led 1 1, ex_led 1 3}"
    by (simp add: decide_partitions_def f)
  have i: "decide_partitions ex_mixed ''b'' [''b'', ''a''] = Inr {ex_led 2 0, ex_led 2 2}"
    by (simp add: decide_partitions_def g)
  from general have
    "\<forall>tp self P. self \<in> set P \<longrightarrow>
      decide_partitions tp self P = Inr (set (assign_spec P (partition_values tp) self))"
    by blast
  with a b c d e f g h i show ?thesis by simp
qed

text \<open>
  The general part at the topic \<open>ex_mixed\<close>, member \<open>b\<close> of the list \<open>b\<close>, \<open>a\<close>: the
  specification's procedure gives the two partitions led by broker \<open>2\<close>.
\<close>

theorem decide_partitions_is_spec_slice_witness:
  "''b'' \<in> set [''b'', ''a'']
   \<and> decide_partitions ex_mixed ''b'' [''b'', ''a'']
       = Inr (set (assign_spec [''b'', ''a''] (partition_values ex_mixed) ''b''))
   \<and> assign_spec [''b'', ''a''] (partition_values ex_mixed) ''b''
       = [ex_led 2 0, ex_led 2 2]"
proof -
  have mem: "''b'' \<in> set [''b'', ''a'']" by simp
  have val: "assign_spec [''b'', ''a''] (partition_values ex_mixed) ''b''
       = [ex_led 2 0, ex_led 2 2]"
    by code_simp
  from decide_partitions_is_spec_slice mem
  have "decide_partitions ex_mixed ''b'' [''b'', ''a'']
       = Inr (set (assign_spec [''b'', ''a''] (partition_values ex_mixed) ''b''))"
    by blast
  with mem val show ?thesis by simp
qed

text \<open>
  Claim C9. The result of \<open>_decide_partitions\<close> does not depend on the order of the
  participant list: two lists with the same members (the same multiset) give the same
  result, since the function sorts the list before it looks \<open>self\<close> up.
\<close>

theorem decide_partitions_permutation_invariant:
  assumes "mset P = mset P'"
  shows "decide_partitions tp self P = decide_partitions tp self P'"
  using decide_slice_mset_cong[OF assms] by (simp add: decide_partitions_def)

text \<open>The theorem at a reordering of the members \<open>a\<close>, \<open>b\<close>, \<open>c\<close>.\<close>

theorem decide_partitions_permutation_invariant_witness:
  "mset [''c'', ''a'', ''b''] = mset [''a'', ''b'', ''c'']
   \<and> decide_partitions (ex_topic 5) ''b'' [''c'', ''a'', ''b'']
       = decide_partitions (ex_topic 5) ''b'' [''a'', ''b'', ''c'']
   \<and> decide_partitions (ex_topic 5) ''b'' [''c'', ''a'', ''b'']
       = Inr {ex_partition 2, ex_partition 3}"
proof -
  have perm: "mset [''c'', ''a'', ''b''] = mset [''a'', ''b'', ''c'']" by simp
  have val: "decide_partitions (ex_topic 5) ''b'' [''c'', ''a'', ''b'']
       = Inr {ex_partition 2, ex_partition 3}"
    by code_simp
  from decide_partitions_permutation_invariant[OF perm, of "ex_topic 5" "''b''"] perm val
  show ?thesis by simp
qed

section \<open>Frames: what a call can change\<close>

lemma and_then_cases:
  assumes "and_then m f s = (r, s')"
  obtains (ret) x s1 where "m s = (Return x, s1)" "f x s1 = (r, s')"
  | (exc) e where "m s = (Raise e, s')" "r = Raise e"
  | (blk) "m s = (Blocked, s')" "r = Blocked"
proof (cases "m s")
  case (Pair r1 s1)
  show ?thesis
  proof (cases r1)
    case (Return x)
    with Pair assms ret show ?thesis by (simp add: and_then_def)
  next
    case (Raise e)
    with Pair assms exc show ?thesis by (simp add: and_then_def)
  next
    case Blocked
    with Pair assms blk show ?thesis by (simp add: and_then_def)
  qed
qed

lemma registry_step_refl: "registry_step s s"
  by (simp add: registry_step_def)

lemma registry_step_trans:
  assumes ab: "registry_step a b" and bc: "registry_step b c"
  shows "registry_step a c"
proof -
  from ab obtain e1 where e1: "trace b = trace a @ e1" "list_all is_registry_event e1"
    and b: "b = a\<lparr>zookeeper := zookeeper b, inner := inner b, trace := trace b\<rparr>"
    by (auto simp: registry_step_def)
  from bc obtain e2 where e2: "trace c = trace b @ e2" "list_all is_registry_event e2"
    and c: "c = b\<lparr>zookeeper := zookeeper c, inner := inner c, trace := trace c\<rparr>"
    by (auto simp: registry_step_def)
  have "trace c = trace a @ (e1 @ e2)" using e1 e2 by simp
  moreover have "list_all is_registry_event (e1 @ e2)" using e1 e2 by simp
  moreover have "c = a\<lparr>zookeeper := zookeeper c, inner := inner c, trace := trace c\<rparr>"
    by (subst c, subst b) simp
  ultimately show ?thesis unfolding registry_step_def by blast
qed

lemma and_then_registry:
  assumes m: "\<And>r s'. m s = (r, s') \<Longrightarrow> registry_step s s'"
    and f: "\<And>x s1 r s'. f x s1 = (r, s') \<Longrightarrow> registry_step s1 s'"
    and run: "and_then m f s = (r, s')"
  shows "registry_step s s'"
  using run
proof (cases rule: and_then_cases)
  case (ret x s1)
  from m[OF ret(1)] f[OF ret(2)] show ?thesis by (rule registry_step_trans)
next
  case (exc e)
  then show ?thesis using m by blast
next
  case blk
  then show ?thesis using m by blast
qed

lemma zk_client_registry: "zk_client s = (r, s') \<Longrightarrow> registry_step s s'"
  by (auto simp: zk_client_def registry_step_def split: option.splits)

lemma zk_client_same: "zk_client s = (r, s') \<Longrightarrow> s' = s"
  by (auto simp: zk_client_def split: option.splits)

lemma zk_create_id_registry: "zk_create_id n v s = (r, s') \<Longrightarrow> registry_step s s'"
  by (auto simp: zk_create_id_def zk_client_def zk_put_def emit_def and_then_def raise_def
      registry_step_def Let_def split: option.splits if_splits)

lemma zk_create_owner_registry: "zk_create_owner n v s = (r, s') \<Longrightarrow> registry_step s s'"
  by (auto simp: zk_create_owner_def zk_client_def zk_put_def emit_def and_then_def raise_def
      registry_step_def Let_def split: option.splits if_splits)

lemma zk_delete_owner_registry: "zk_delete_owner n s = (r, s') \<Longrightarrow> registry_step s s'"
  by (auto simp: zk_delete_owner_def zk_client_def zk_put_def emit_def and_then_def raise_def
      registry_step_def Let_def split: option.splits if_splits)

lemma zk_delete_id_registry: "zk_delete_id n s = (r, s') \<Longrightarrow> registry_step s s'"
  by (auto simp: zk_delete_id_def zk_client_def zk_put_def emit_def and_then_def raise_def
      registry_step_def Let_def split: option.splits if_splits)

lemma zk_stop_registry: "zk_stop s = (r, s') \<Longrightarrow> registry_step s s'"
  by (auto simp: zk_stop_def zk_client_def zk_put_def emit_def and_then_def raise_def
      registry_step_def Let_def split: option.splits if_splits)

lemma inner_stop_registry: "inner_stop s = (r, s') \<Longrightarrow> registry_step s s'"
  by (auto simp: inner_stop_def registry_step_def split: option.splits)

lemma get_participants_same: "get_participants s = (r, s') \<Longrightarrow> s' = s"
  by (auto simp: get_participants_def zk_client_def and_then_def split: option.splits)

lemma get_held_partitions_same: "get_held_partitions s = (r, s') \<Longrightarrow> s' = s"
  by (auto simp: get_held_partitions_def zk_client_def and_then_def split: option.splits sum.splits)

lemma add_self_registry: "add_self s = (r, s') \<Longrightarrow> registry_step s s'"
  unfolding add_self_def
  by (erule and_then_cases)
     (auto dest!: get_participants_same zk_create_id_registry simp: registry_step_refl
        split: if_splits)

lemma current_participants_registry: "current_participants s = (r, s') \<Longrightarrow> registry_step s s'"
  unfolding current_participants_def
  apply (erule and_then_cases)
    apply (auto dest!: get_participants_same simp: registry_step_refl split: if_splits)
  apply (erule and_then_cases)
    apply (auto dest!: add_self_registry simp: return_def)
  done

lemma current_participants_has_self:
  assumes "current_participants s = (Return ps, s')"
  shows "consumer_id s \<in> set ps \<and> ps \<noteq> []"
proof -
  from assms have "consumer_id s \<in> set ps"
    unfolding current_participants_def
    by (elim and_then_cases)
       (auto simp: return_def split: if_splits elim!: and_then_cases
          dest!: get_participants_same)
  then show ?thesis by auto
qed

lemma remove_partitions_registry: "remove_partitions ps s = (r, s') \<Longrightarrow> registry_step s s'"
proof (induction ps arbitrary: s)
  case Nil
  then show ?case by (simp add: registry_step_refl)
next
  case (Cons p ps)
  obtain r1 s1 where d: "zk_delete_owner (partition_slug p) s = (r1, s1)" by force
  then have st: "registry_step s s1" by (rule zk_delete_owner_registry)
  show ?case
  proof (cases r1)
    case (Return u)
    with Cons.prems d have "remove_partitions ps s1 = (r, s')" by simp
    from st Cons.IH[OF this] show ?thesis by (rule registry_step_trans)
  next
    case (Raise e)
    with Cons.prems d st show ?thesis by simp
  next
    case Blocked
    with Cons.prems d st show ?thesis by simp
  qed
qed

lemma add_partitions_registry: "add_partitions ps s = (r, s') \<Longrightarrow> registry_step s s'"
proof (induction ps arbitrary: s)
  case Nil
  then show ?case by (simp add: registry_step_refl)
next
  case (Cons p ps)
  obtain r1 s1 where d: "zk_create_owner (partition_slug p) (consumer_id s) s = (r1, s1)" by force
  then have st: "registry_step s s1" by (rule zk_create_owner_registry)
  show ?case
  proof (cases r1)
    case (Return u)
    with Cons.prems d have "add_partitions ps s1 = (r, s')" by simp
    from st Cons.IH[OF this] show ?thesis by (rule registry_step_trans)
  next
    case (Raise e)
    with Cons.prems d st show ?thesis by (cases e) auto
  next
    case Blocked
    with Cons.prems d st show ?thesis by simp
  qed
qed

lemma setup_internal_consumer_registry:
  "setup_internal_consumer ps s = (r, s') \<Longrightarrow> registry_step s s'"
  by (auto simp: setup_internal_consumer_def inner_stop_def and_then_def registry_step_def
      split: option.splits)

lemma rebalance_pass_registry: "rebalance_pass s = (r, s') \<Longrightarrow> registry_step s s'"
  unfolding rebalance_pass_def
  apply (erule and_then_registry[rotated 2])
   apply (erule current_participants_registry)
  apply (erule and_then_registry[rotated 2])
   apply (auto simp: lift_def registry_step_refl split: sum.splits)[1]
  apply (simp add: Let_def return_def registry_step_refl split: if_splits)
  apply (erule and_then_registry[rotated 2])
   apply (auto dest!: get_held_partitions_same simp: registry_step_refl)[1]
  apply (erule and_then_registry[rotated 2])
   apply (erule remove_partitions_registry)
  apply (erule and_then_registry[rotated 2])
   apply (erule add_partitions_registry)
  apply (erule and_then_registry[rotated 2])
   apply (auto dest!: setup_internal_consumer_registry simp: registry_step_refl split: if_splits)[1]
  apply (simp add: return_def registry_step_refl)
  done

lemma registry_step_fields:
  assumes "registry_step s s'"
  shows "topic s' = topic s" "consumer_id s' = consumer_id s"
    "rebalance_max_retries s' = rebalance_max_retries s"
    "rebalance_backoff_ms s' = rebalance_backoff_ms s"
    "owns_zookeeper s' = owns_zookeeper s" "running s' = running s"
    "worker_exception s' = worker_exception s" "rebalancing_lock s' = rebalancing_lock s"
    "env s' = env s" "sleeps s' = sleeps s" "reset_offset_on_start s' = reset_offset_on_start s"
proof -
  from assms have eq: "s' = s\<lparr>zookeeper := zookeeper s', inner := inner s', trace := trace s'\<rparr>"
    by (simp add: registry_step_def)
  show "topic s' = topic s" by (subst eq) simp
  show "consumer_id s' = consumer_id s" by (subst eq) simp
  show "rebalance_max_retries s' = rebalance_max_retries s" by (subst eq) simp
  show "rebalance_backoff_ms s' = rebalance_backoff_ms s" by (subst eq) simp
  show "owns_zookeeper s' = owns_zookeeper s" by (subst eq) simp
  show "running s' = running s" by (subst eq) simp
  show "worker_exception s' = worker_exception s" by (subst eq) simp
  show "rebalancing_lock s' = rebalancing_lock s" by (subst eq) simp
  show "env s' = env s" by (subst eq) simp
  show "sleeps s' = sleeps s" by (subst eq) simp
  show "reset_offset_on_start s' = reset_offset_on_start s" by (subst eq) simp
qed

lemma registry_step_events:
  assumes "registry_step s s'"
  shows "trace s' = trace s @ new_events s s'" "list_all is_registry_event (new_events s s')"
  using assms by (auto simp: registry_step_def new_events_def)

lemma new_events_eqI: "trace s' = trace s @ evs \<Longrightarrow> new_events s s' = evs"
  by (simp add: new_events_def)

lemma loop_step_refl: "loop_step s s"
  by (simp add: loop_step_def)

lemma registry_step_loop_step: "registry_step s s' \<Longrightarrow> loop_step s s'"
proof -
  assume a: "registry_step s s'"
  then obtain evs where e: "trace s' = trace s @ evs" "list_all is_registry_event evs"
    and eq: "s' = s\<lparr>zookeeper := zookeeper s', inner := inner s', trace := trace s'\<rparr>"
    by (auto simp: registry_step_def)
  from e(2) have "list_all (\<lambda>ev. is_registry_event ev \<or> is_sleep ev) evs"
    by (induction evs) auto
  moreover have "s' = s\<lparr>zookeeper := zookeeper s', inner := inner s', sleeps := sleeps s',
      trace := trace s'\<rparr>"
    using registry_step_fields(10)[OF a] by (subst eq) simp
  ultimately show ?thesis using e(1) unfolding loop_step_def by blast
qed

lemma loop_step_trans:
  assumes ab: "loop_step a b" and bc: "loop_step b c"
  shows "loop_step a c"
proof -
  let ?ok = "\<lambda>ev. is_registry_event ev \<or> is_sleep ev"
  from ab obtain e1 where e1: "trace b = trace a @ e1" "list_all ?ok e1"
    and b: "b = a\<lparr>zookeeper := zookeeper b, inner := inner b, sleeps := sleeps b,
        trace := trace b\<rparr>"
    by (auto simp: loop_step_def)
  from bc obtain e2 where e2: "trace c = trace b @ e2" "list_all ?ok e2"
    and c: "c = b\<lparr>zookeeper := zookeeper c, inner := inner c, sleeps := sleeps c,
        trace := trace c\<rparr>"
    by (auto simp: loop_step_def)
  have "trace c = trace a @ (e1 @ e2)" using e1 e2 by simp
  moreover have "list_all ?ok (e1 @ e2)" using e1 e2 by simp
  moreover have "c = a\<lparr>zookeeper := zookeeper c, inner := inner c, sleeps := sleeps c,
      trace := trace c\<rparr>"
    by (subst c, subst b) simp
  ultimately show ?thesis unfolding loop_step_def by blast
qed

lemma loop_step_fields:
  assumes "loop_step s s'"
  shows "topic s' = topic s" "consumer_id s' = consumer_id s"
    "rebalance_max_retries s' = rebalance_max_retries s"
    "rebalance_backoff_ms s' = rebalance_backoff_ms s"
    "owns_zookeeper s' = owns_zookeeper s" "running s' = running s"
    "worker_exception s' = worker_exception s" "rebalancing_lock s' = rebalancing_lock s"
    "env s' = env s"
proof -
  from assms have eq: "s' = s\<lparr>zookeeper := zookeeper s', inner := inner s', sleeps := sleeps s',
      trace := trace s'\<rparr>"
    by (simp add: loop_step_def)
  show "topic s' = topic s" by (subst eq) simp
  show "consumer_id s' = consumer_id s" by (subst eq) simp
  show "rebalance_max_retries s' = rebalance_max_retries s" by (subst eq) simp
  show "rebalance_backoff_ms s' = rebalance_backoff_ms s" by (subst eq) simp
  show "owns_zookeeper s' = owns_zookeeper s" by (subst eq) simp
  show "running s' = running s" by (subst eq) simp
  show "worker_exception s' = worker_exception s" by (subst eq) simp
  show "rebalancing_lock s' = rebalancing_lock s" by (subst eq) simp
  show "env s' = env s" by (subst eq) simp
qed

lemma loop_step_events:
  assumes "loop_step s s'"
  shows "trace s' = trace s @ new_events s s'"
    "list_all (\<lambda>ev. is_registry_event ev \<or> is_sleep ev) (new_events s s')"
  using assms by (auto simp: loop_step_def new_events_def)

lemma sleep_loop_step: "sleep d s = (r, s') \<Longrightarrow> loop_step s s'"
  by (auto simp: sleep_def loop_step_def split: if_splits)

lemma sleep_result:
  "0 \<le> d \<Longrightarrow> sleep d s = (Return (),
      s\<lparr>zookeeper := map_option (peers (env s) (sleeps s)) (zookeeper s),
        sleeps := Suc (sleeps s), trace := trace s @ [Sleep d]\<rparr>)"
  by (simp add: sleep_def)

lemma rebalance_loop_loop_step: "rebalance_loop is s = (r, s') \<Longrightarrow> loop_step s s'"
proof (induction "is" arbitrary: s)
  case Nil
  then show ?case by (simp add: loop_step_refl)
next
  case (Cons i rest)
  obtain r1 s1 where p: "rebalance_pass s = (r1, s1)" by force
  then have st: "loop_step s s1"
    by (intro registry_step_loop_step rebalance_pass_registry)
  show ?case
  proof (cases "\<exists>q. r1 = Raise (PartitionOwnedError q) \<and> int i \<noteq> rebalance_max_retries s1 - 1")
    case True
    then obtain q where q: "r1 = Raise (PartitionOwnedError q)"
      and ni: "int i \<noteq> rebalance_max_retries s1 - 1" by blast
    obtain r2 s2 where sl: "sleep (real i * (real_of_int (rebalance_backoff_ms s1) / 1000)) s1 = (r2, s2)"
      by force
    then have st2: "loop_step s1 s2" by (rule sleep_loop_step)
    show ?thesis
    proof (cases r2)
      case (Return u)
      with Cons.prems p q ni sl have "rebalance_loop rest s2 = (r, s')" by simp
      from Cons.IH[OF this] st st2 show ?thesis by (blast intro: loop_step_trans)
    next
      case (Raise e)
      with Cons.prems p q ni sl have "s' = s2" by simp
      with st st2 show ?thesis by (blast intro: loop_step_trans)
    next
      case Blocked
      with Cons.prems p q ni sl have "s' = s2" by simp
      with st st2 show ?thesis by (blast intro: loop_step_trans)
    qed
  next
    case False
    with Cons.prems p have "s' = s1"
      by (cases r1) (auto split: error.splits if_splits)
    with st show ?thesis by simp
  qed
qed

lemma rebalance_loop_retry:
  assumes pass: "rebalance_pass s = (Raise (PartitionOwnedError p), s')"
    and backoff: "0 \<le> rebalance_backoff_ms s"
  shows "rebalance_loop (i # rest) s =
     (if int i = rebalance_max_retries s - 1 then (Raise (PartitionOwnedError p), s')
      else rebalance_loop rest
             (s'\<lparr>zookeeper := map_option (peers (env s') (sleeps s')) (zookeeper s'),
                 sleeps := Suc (sleeps s'),
                 trace := trace s' @ [Sleep (real i * (real_of_int (rebalance_backoff_ms s) / 1000))]\<rparr>))"
proof -
  from pass have st: "registry_step s s'" by (rule rebalance_pass_registry)
  note f = registry_step_fields[OF st]
  have "0 \<le> real i * (real_of_int (rebalance_backoff_ms s') / 1000)"
    using backoff f(4) by simp
  from sleep_result[OF this, of s'] pass f(3,4) show ?thesis by simp
qed

lemma filter_sleep_registry: "list_all is_registry_event evs \<Longrightarrow> filter is_sleep evs = []"
proof (induction evs)
  case Nil
  then show ?case by simp
next
  case (Cons ev evs)
  then show ?case by (cases ev) auto
qed

lemma rebalance_loop_sleeps:
  assumes "rebalance_loop [j..<n] s = (Raise (PartitionOwnedError p), s')"
    and "int n = rebalance_max_retries s" and "0 \<le> rebalance_backoff_ms s"
  shows "filter is_sleep (new_events s s') =
           map (\<lambda>i. Sleep (real i * (real_of_int (rebalance_backoff_ms s) / 1000))) [j..<n - 1]"
  using assms
proof (induction "n - j" arbitrary: j s)
  case 0
  then show ?case by simp
next
  case (Suc d)
  then have jn: "j < n" by simp
  then have list: "[j..<n] = j # [Suc j..<n]" by (simp add: upt_conv_Cons)
  obtain r1 s1 where p: "rebalance_pass s = (r1, s1)" by force
  then have st: "registry_step s s1" by (rule rebalance_pass_registry)
  note f = registry_step_fields[OF st]
  note ev1 = registry_step_events[OF st]
  from Suc.prems(1) list have run: "rebalance_loop (j # [Suc j..<n]) s = (Raise (PartitionOwnedError p), s')"
    by simp
  have "\<exists>q. r1 = Raise (PartitionOwnedError q)"
  proof (rule ccontr)
    assume "\<not> ?thesis"
    with run p have "r1 = Raise (PartitionOwnedError p)"
      by (cases r1) (auto split: error.splits)
    with \<open>\<not> ?thesis\<close> show False by blast
  qed
  then obtain q where q: "r1 = Raise (PartitionOwnedError q)" by blast
  show ?case
  proof (cases "int j = rebalance_max_retries s - 1")
    case True
    with run p q f have "s' = s1" by simp
    moreover from True Suc.prems(2) have "j = n - 1" by linarith
    ultimately show ?thesis using ev1 by (simp add: filter_sleep_registry)
  next
    case False
    let ?d = "real j * (real_of_int (rebalance_backoff_ms s) / 1000)"
    let ?s2 = "s1\<lparr>zookeeper := map_option (peers (env s1) (sleeps s1)) (zookeeper s1),
                 sleeps := Suc (sleeps s1), trace := trace s1 @ [Sleep ?d]\<rparr>"
    from rebalance_loop_retry[OF p[unfolded q] Suc.prems(3), of j "[Suc j..<n]"] run False
    have rec: "rebalance_loop [Suc j..<n] ?s2 = (Raise (PartitionOwnedError p), s')" by simp
    have "d = n - Suc j" using Suc.hyps(2) by simp
    from Suc.hyps(1)[OF this rec] Suc.prems(2,3) f
    have ih: "filter is_sleep (new_events ?s2 s') =
        map (\<lambda>i. Sleep (real i * (real_of_int (rebalance_backoff_ms s) / 1000))) [Suc j..<n - 1]"
      by simp
    from rebalance_loop_loop_step[OF rec] have "trace s' = trace ?s2 @ new_events ?s2 s'"
      by (rule loop_step_events)
    then have "trace s' = trace s @ (new_events s s1 @ [Sleep ?d] @ new_events ?s2 s')"
      using ev1(1) by simp
    then have "new_events s s' = new_events s s1 @ [Sleep ?d] @ new_events ?s2 s'"
      by (rule new_events_eqI)
    moreover from False jn Suc.prems(2) have "j < n - 1" by linarith
    then have "[j..<n - 1] = j # [Suc j..<n - 1]" by (simp add: upt_conv_Cons)
    ultimately show ?thesis using ih ev1(2) by (simp add: filter_sleep_registry)
  qed
qed

section \<open>Calls that always return\<close>

lemma and_then_not_blocked:
  assumes m: "\<And>r s'. m s = (r, s') \<Longrightarrow> r \<noteq> Blocked"
    and f: "\<And>x s1 r s'. f x s1 = (r, s') \<Longrightarrow> r \<noteq> Blocked"
    and run: "and_then m f s = (r, s')"
  shows "r \<noteq> Blocked"
  using run
proof (cases rule: and_then_cases)
  case (ret x s1)
  from f[OF ret(2)] show ?thesis .
next
  case (exc e)
  then show ?thesis by simp
next
  case blk
  with m show ?thesis by blast
qed

lemma zk_calls_not_blocked:
  "zk_client s = (rz, s') \<Longrightarrow> rz \<noteq> Blocked"
  "zk_create_id n v s = (r, s') \<Longrightarrow> r \<noteq> Blocked"
  "zk_create_owner n v s = (r, s') \<Longrightarrow> r \<noteq> Blocked"
  "zk_delete_owner n s = (r, s') \<Longrightarrow> r \<noteq> Blocked"
  "zk_delete_id n s = (r, s') \<Longrightarrow> r \<noteq> Blocked"
  "zk_stop s = (r, s') \<Longrightarrow> r \<noteq> Blocked"
  "zk_ensure_owners_path s = (r, s') \<Longrightarrow> r \<noteq> Blocked"
  by (auto simp: zk_client_def zk_create_id_def zk_create_owner_def zk_delete_owner_def
      zk_delete_id_def zk_stop_def zk_ensure_owners_path_def zk_put_def emit_def and_then_def
      raise_def return_def Let_def split: option.splits if_splits)

lemma inner_calls_not_blocked:
  "inner_stop s = (r, s') \<Longrightarrow> r \<noteq> Blocked"
  "inner_commit_offsets s = (r, s') \<Longrightarrow> r \<noteq> Blocked"
  "inner_reset_offsets s = (r, s') \<Longrightarrow> r \<noteq> Blocked"
  "setup_internal_consumer ps s = (r, s') \<Longrightarrow> r \<noteq> Blocked"
  "raise_worker_exceptions s = (r, s') \<Longrightarrow> r \<noteq> Blocked"
  by (auto simp: inner_stop_def inner_commit_offsets_def inner_reset_offsets_def
      setup_internal_consumer_def raise_worker_exceptions_def and_then_def
      split: option.splits if_splits)

lemma get_participants_not_blocked: "get_participants s = (r, s') \<Longrightarrow> r \<noteq> Blocked"
  by (auto simp: get_participants_def zk_client_def and_then_def split: option.splits)

lemma get_held_partitions_not_blocked: "get_held_partitions s = (r, s') \<Longrightarrow> r \<noteq> Blocked"
  by (auto simp: get_held_partitions_def zk_client_def and_then_def
      split: option.splits sum.splits)

lemma add_self_not_blocked: "add_self s = (r, s') \<Longrightarrow> r \<noteq> Blocked"
  unfolding add_self_def
  by (erule and_then_not_blocked[rotated 2])
     (auto dest: get_participants_not_blocked zk_calls_not_blocked split: if_splits)

lemma current_participants_not_blocked: "current_participants s = (r, s') \<Longrightarrow> r \<noteq> Blocked"
  unfolding current_participants_def
  apply (erule and_then_not_blocked[rotated 2])
   apply (erule get_participants_not_blocked)
  apply (simp split: if_splits)
   apply (erule and_then_not_blocked[rotated 2])
    apply (erule add_self_not_blocked)
   apply (force simp: return_def)
  apply force
  done

lemma remove_partitions_not_blocked: "remove_partitions ps s = (r, s') \<Longrightarrow> r \<noteq> Blocked"
proof (induction ps arbitrary: s)
  case Nil
  then show ?case by auto
next
  case (Cons p ps)
  obtain r1 s1 where d: "zk_delete_owner (partition_slug p) s = (r1, s1)" by force
  with Cons zk_calls_not_blocked(4)[OF d] show ?case by (cases r1) auto
qed

lemma add_partitions_not_blocked: "add_partitions ps s = (r, s') \<Longrightarrow> r \<noteq> Blocked"
proof (induction ps arbitrary: s)
  case Nil
  then show ?case by auto
next
  case (Cons p ps)
  obtain r1 s1 where d: "zk_create_owner (partition_slug p) (consumer_id s) s = (r1, s1)" by force
  show ?case
  proof (cases r1)
    case (Return u)
    with Cons d show ?thesis by auto
  next
    case (Raise e)
    with Cons.prems d show ?thesis by (cases e) auto
  next
    case Blocked
    with zk_calls_not_blocked(3)[OF d] show ?thesis by simp
  qed
qed

lemma rebalance_pass_not_blocked: "rebalance_pass s = (r, s') \<Longrightarrow> r \<noteq> Blocked"
  unfolding rebalance_pass_def
  apply (erule and_then_not_blocked[rotated 2])
   apply (erule current_participants_not_blocked)
  apply (erule and_then_not_blocked[rotated 2])
   apply (auto simp: lift_def split: sum.splits)[1]
  apply (simp add: Let_def return_def split: if_splits)
   apply force
  apply (erule and_then_not_blocked[rotated 2])
   apply (erule get_held_partitions_not_blocked)
  apply (erule and_then_not_blocked[rotated 2])
   apply (erule remove_partitions_not_blocked)
  apply (erule and_then_not_blocked[rotated 2])
   apply (erule add_partitions_not_blocked)
  apply (erule and_then_not_blocked[rotated 2])
   apply (auto dest: inner_calls_not_blocked split: if_splits)[1]
  apply (force simp: return_def)
  done

lemma sleep_not_blocked: "sleep d s = (r, s') \<Longrightarrow> r \<noteq> Blocked"
  by (auto simp: sleep_def split: if_splits)

lemma rebalance_loop_not_blocked: "rebalance_loop is s = (r, s') \<Longrightarrow> r \<noteq> Blocked"
proof (induction "is" arbitrary: s)
  case Nil
  then show ?case by auto
next
  case (Cons i rest)
  obtain r1 s1 where p: "rebalance_pass s = (r1, s1)" by force
  note nb = rebalance_pass_not_blocked[OF p]
  show ?case
  proof (cases "\<exists>q. r1 = Raise (PartitionOwnedError q) \<and> int i \<noteq> rebalance_max_retries s1 - 1")
    case True
    then obtain q where q: "r1 = Raise (PartitionOwnedError q)"
      and ni: "int i \<noteq> rebalance_max_retries s1 - 1" by blast
    obtain r2 s2 where sl: "sleep (real i * (real_of_int (rebalance_backoff_ms s1) / 1000)) s1 = (r2, s2)"
      by force
    show ?thesis
    proof (cases r2)
      case (Return u)
      with Cons.prems p q ni sl have "rebalance_loop rest s2 = (r, s')" by simp
      from Cons.IH[OF this] show ?thesis .
    next
      case (Raise e)
      with Cons.prems p q ni sl show ?thesis by auto
    next
      case Blocked
      with sleep_not_blocked[OF sl] show ?thesis by simp
    qed
  next
    case False
    with Cons.prems p nb show ?thesis
      by (cases r1) (auto split: error.splits if_splits)
  qed
qed

lemma commit_offsets_effect:
  assumes "commit_offsets s = (r, s')"
  shows "r \<noteq> Blocked" "rebalancing_lock s' = rebalancing_lock s"
    "\<exists>evs. trace s' = trace s @ evs \<and> list_all is_quiet evs \<and> list_all (\<lambda>ev. \<not> is_registry_event ev) evs"
    "zookeeper s' = zookeeper s" "inner s' = inner s" "running s' = running s"
    "rebalance_max_retries s' = rebalance_max_retries s" "topic s' = topic s"
    "consumer_id s' = consumer_id s" "env s' = env s" "owns_zookeeper s' = owns_zookeeper s"
  using assms
  by (auto simp: commit_offsets_def raise_worker_exceptions_def inner_commit_offsets_def
      and_then_def split: option.splits if_splits)

lemma stop_outside_lock_quiet:
  "list_all is_quiet evs \<Longrightarrow> stop_outside_lock h (evs @ rest) = stop_outside_lock h rest"
proof (induction evs)
  case Nil
  then show ?case by simp
next
  case (Cons ev evs)
  then show ?case by (cases ev) auto
qed

lemma registry_events_quiet: "list_all is_registry_event evs \<Longrightarrow> list_all is_quiet evs"
proof (induction evs)
  case Nil
  then show ?case by simp
next
  case (Cons ev evs)
  then show ?case by (cases ev) auto
qed

lemma loop_events_quiet:
  "list_all (\<lambda>ev. is_registry_event ev \<or> is_sleep ev) evs \<Longrightarrow> list_all is_quiet evs"
proof (induction evs)
  case Nil
  then show ?case by simp
next
  case (Cons ev evs)
  then show ?case by (cases ev) auto
qed

lemma catch_delete_registry:
  "catch (zk_delete_id n) (\<lambda>e. if e = NoNodeException then return () else raise e) s = (r, s')
    \<Longrightarrow> registry_step s s' \<and> r \<noteq> Blocked"
proof -
  assume a: "catch (zk_delete_id n) (\<lambda>e. if e = NoNodeException then return () else raise e) s = (r, s')"
  obtain r1 s1 where d: "zk_delete_id n s = (r1, s1)" by force
  from zk_delete_id_registry[OF d] zk_calls_not_blocked(5)[OF d] a d show ?thesis
    by (cases r1) (auto simp: catch_def return_def raise_def split: if_splits)
qed

lemma stop_tail_registry: "stop_tail s = (r, s') \<Longrightarrow> registry_step s s'"
  unfolding stop_tail_def
  apply (erule and_then_registry[rotated 2])
   apply (auto dest: inner_stop_registry simp: registry_step_refl split: if_splits)[1]
  apply (simp split: if_splits)
   apply (erule zk_stop_registry)
  apply (erule and_then_registry[rotated 2])
   apply (auto dest!: get_held_partitions_same simp: registry_step_refl)[1]
  apply (erule and_then_registry[rotated 2])
   apply (erule remove_partitions_registry)
  apply (auto dest: catch_delete_registry)
  done

lemma stop_tail_not_blocked: "stop_tail s = (r, s') \<Longrightarrow> r \<noteq> Blocked"
  unfolding stop_tail_def
  apply (erule and_then_not_blocked[rotated 2])
   apply (auto dest: inner_calls_not_blocked split: if_splits)[1]
  apply (simp split: if_splits)
   apply (erule zk_calls_not_blocked)
  apply (erule and_then_not_blocked[rotated 2])
   apply (erule get_held_partitions_not_blocked)
  apply (erule and_then_not_blocked[rotated 2])
   apply (erule remove_partitions_not_blocked)
  apply (auto dest: catch_delete_registry)
  done

lemma stop_unfold:
  "\<not> rebalancing_lock s \<Longrightarrow>
   stop s = stop_tail (s\<lparr>running := False, rebalancing_lock := False,
                         trace := trace s @ [StopCalled, LockAcquire, LockRelease]\<rparr>)"
  by (simp add: stop_def stop_tail_def and_then_def emit_def with_lock_def)

lemma stop_blocked:
  "rebalancing_lock s \<Longrightarrow> stop s = (Blocked, s\<lparr>trace := trace s @ [StopCalled]\<rparr>)"
  by (simp add: stop_def and_then_def emit_def with_lock_def)

section \<open>The shape of a rebalance\<close>

lemma empty_assignment_iff:
  assumes dP: "distinct P" and few: "length (partition_values tp) < length P"
    and i: "i < length P"
  shows "decide_partitions tp (sort P ! i) P = Inr {} \<longleftrightarrow> length (partition_values tp) \<le> i"
proof -
  let ?T = "sort_key p_to_str (partition_values tp)"
  let ?n = "length (partition_values tp)"
  let ?k = "length P"
  have "distinct (sort P)" using dP by simp
  then have idx: "index_of (sort P) (sort P ! i) = Inr i"
    using i by (simp add: index_of_nth_distinct)
  have st: "slice_start ?n ?k j = min j ?n" for j
    using few by (simp add: slice_start_def)
  note at = decide_partitions_at[OF idx, of tp, unfolded st]
  show ?thesis
  proof (cases "?n \<le> i")
    case True
    then show ?thesis unfolding at by (auto simp: min_def)
  next
    case False
    then have "min i ?n \<le> i \<and> i < min (Suc i) ?n" by simp
    then have "?T ! i \<in> {?T ! j | j. min i ?n \<le> j \<and> j < min (Suc i) ?n}" by blast
    then have "{?T ! j | j. min i ?n \<le> j \<and> j < min (Suc i) ?n} \<noteq> {}" by blast
    with False show ?thesis unfolding at by simp
  qed
qed

lemma current_participants_keeps_owners:
  assumes "current_participants s = (r, s1)"
  shows "map_option zk_owners (zookeeper s1) = map_option zk_owners (zookeeper s)"
    "inner s1 = inner s" "list_all (\<lambda>ev. \<not> is_ownership_event ev) (new_events s s1)"
  using assms
  by (auto simp: current_participants_def get_participants_def add_self_def zk_create_id_def
      zk_client_def zk_put_def emit_def and_then_def raise_def return_def Let_def new_events_def
      split: option.splits if_splits)

lemma rebalance_pass_empty:
  assumes cp: "current_participants s = (Return ps, s1)"
    and empty: "decide_partitions (topic s1) (consumer_id s1) ps = Inr {}"
  shows "rebalance_pass s = (Return True, s1)"
proof -
  from empty have "decide_slice (topic s1) (consumer_id s1) ps = Inr []"
    by (auto simp: decide_partitions_def split: sum.splits)
  with cp show ?thesis
    by (simp add: rebalance_pass_def and_then_def lift_def return_def)
qed

lemma rebalance_loop_return:
  "rebalance_pass s = (Return b, s1) \<Longrightarrow> rebalance_loop (i # rest) s = (Return b, s1)"
  by simp

lemma rebalance_locked_stopped:
  assumes "\<not> rebalancing_lock s" and "\<not> running s"
  shows "rebalance_locked s = (Raise ConsumerStoppedException,
           s\<lparr>rebalancing_lock := False, trace := trace s @ [LockAcquire, LockRelease]\<rparr>)"
  using assms by (simp add: rebalance_locked_def and_then_def with_lock_def)

lemma rebalance_locked_running:
  assumes free: "\<not> rebalancing_lock s" and run: "running s"
    and loop: "rebalance_loop [0..<nat (rebalance_max_retries s)]
                 (s\<lparr>rebalancing_lock := True, trace := trace s @ [LockAcquire]\<rparr>) = (r, s2)"
  shows "rebalance_locked s =
           (case r of
              Return should_stop \<Rightarrow>
                if should_stop
                then stop (s2\<lparr>rebalancing_lock := False, trace := trace s2 @ [LockRelease]\<rparr>)
                else (Return (), s2\<lparr>rebalancing_lock := False, trace := trace s2 @ [LockRelease]\<rparr>)
            | Raise e \<Rightarrow> (Raise e, s2\<lparr>rebalancing_lock := False, trace := trace s2 @ [LockRelease]\<rparr>)
            | Blocked \<Rightarrow> (Blocked, s2))"
  using assms
  by (cases r) (simp_all add: rebalance_locked_def and_then_def with_lock_def return_def)

lemma stop_effect:
  assumes free: "\<not> rebalancing_lock s" and st: "stop s = (r, s')"
  shows "r \<noteq> Blocked" "\<not> rebalancing_lock s'" "\<not> running s'"
    "\<exists>evs. trace s' = trace s @ [StopCalled, LockAcquire, LockRelease] @ evs
        \<and> list_all is_registry_event evs"
    "topic s' = topic s" "consumer_id s' = consumer_id s" "env s' = env s"
    "rebalance_max_retries s' = rebalance_max_retries s"
proof -
  let ?s0 = "s\<lparr>running := False, rebalancing_lock := False,
               trace := trace s @ [StopCalled, LockAcquire, LockRelease]\<rparr>"
  from st stop_unfold[OF free] have t: "stop_tail ?s0 = (r, s')" by simp
  from stop_tail_not_blocked[OF t] show "r \<noteq> Blocked" .
  from stop_tail_registry[OF t] have rs: "registry_step ?s0 s'" .
  from registry_step_fields[OF rs]
  show "\<not> rebalancing_lock s'" "\<not> running s'" "topic s' = topic s"
    "consumer_id s' = consumer_id s" "env s' = env s"
    "rebalance_max_retries s' = rebalance_max_retries s"
    by simp_all
  from registry_step_events[OF rs]
  show "\<exists>evs. trace s' = trace s @ [StopCalled, LockAcquire, LockRelease] @ evs
        \<and> list_all is_registry_event evs"
    by auto
qed

lemma rebalance_locked_effect:
  assumes free: "\<not> rebalancing_lock s" and rl: "rebalance_locked s = (r, s')"
  shows "r \<noteq> Blocked \<and> \<not> rebalancing_lock s'
       \<and> (\<exists>evs. trace s' = trace s @ evs \<and> stop_outside_lock False evs)"
proof (cases "running s")
  case False
  from rl rebalance_locked_stopped[OF free False] show ?thesis by auto
next
  case True
  let ?s1 = "s\<lparr>rebalancing_lock := True, trace := trace s @ [LockAcquire]\<rparr>"
  obtain r2 s2 where loop: "rebalance_loop [0..<nat (rebalance_max_retries s)] ?s1 = (r2, s2)"
    by force
  note nb = rebalance_loop_not_blocked[OF loop]
  note ls = rebalance_loop_loop_step[OF loop]
  from loop_step_events[OF ls] obtain el where
    el: "trace s2 = trace s @ [LockAcquire] @ el" "list_all is_quiet el"
    by (auto dest: loop_events_quiet)
  let ?s3 = "s2\<lparr>rebalancing_lock := False, trace := trace s2 @ [LockRelease]\<rparr>"
  note unf = rebalance_locked_running[OF free True loop]
  show ?thesis
  proof (cases r2)
    case (Return should_stop)
    show ?thesis
    proof (cases should_stop)
      case True
      with unf Return rl have st: "stop ?s3 = (r, s')" by simp
      have f3: "\<not> rebalancing_lock ?s3" by simp
      from stop_effect(4)[OF f3 st] obtain et where
        et: "trace s' = trace ?s3 @ [StopCalled, LockAcquire, LockRelease] @ et"
          "list_all is_registry_event et" by blast
      have tr: "trace s' = trace s @ (LockAcquire # el @ LockRelease # StopCalled # LockAcquire
                  # LockRelease # et)"
        using et(1) el(1) by simp
      have "stop_outside_lock False (LockAcquire # el @ LockRelease # StopCalled # LockAcquire
                  # LockRelease # et)"
        using stop_outside_lock_quiet[OF el(2)]
          stop_outside_lock_quiet[OF registry_events_quiet[OF et(2)], of False "[]"]
        by simp
      with tr stop_effect(1,2)[OF f3 st] show ?thesis by blast
    next
      case False
      with unf Return rl have "r = Return ()" "s' = ?s3" by simp_all
      moreover have "stop_outside_lock False (LockAcquire # el @ [LockRelease])"
        using stop_outside_lock_quiet[OF el(2)] by simp
      ultimately show ?thesis using el(1) by auto
    qed
  next
    case (Raise e)
    with unf rl have "r = Raise e" "s' = ?s3" by simp_all
    moreover have "stop_outside_lock False (LockAcquire # el @ [LockRelease])"
      using stop_outside_lock_quiet[OF el(2)] by simp
    ultimately show ?thesis using el(1) by auto
  next
    case Blocked
    with nb show ?thesis by simp
  qed
qed

lemma rebalance_effect:
  assumes free: "\<not> rebalancing_lock s" and rb: "rebalance s = (r, s')"
  shows "r \<noteq> Blocked \<and> \<not> rebalancing_lock s'
       \<and> (\<exists>evs. trace s' = trace s @ evs \<and> stop_outside_lock False evs)"
proof (cases "inner s = None")
  case True
  with rb have "rebalance_locked s = (r, s')" by (simp add: rebalance_def and_then_def)
  from rebalance_locked_effect[OF free this] show ?thesis .
next
  case False
  obtain r0 s0 where c: "commit_offsets s = (r0, s0)" by force
  note ce = commit_offsets_effect[OF c]
  from ce(3) obtain ec where ec: "trace s0 = trace s @ ec" "list_all is_quiet ec" by blast
  show ?thesis
  proof (cases r0)
    case (Return u)
    with rb False c have rl: "rebalance_locked s0 = (r, s')"
      by (simp add: rebalance_def and_then_def)
    from ce(2) free have "\<not> rebalancing_lock s0" by simp
    from rebalance_locked_effect[OF this rl] obtain evs where
      "r \<noteq> Blocked" "\<not> rebalancing_lock s'" "trace s' = trace s0 @ evs"
      "stop_outside_lock False evs" by blast
    moreover from this ec have "trace s' = trace s @ (ec @ evs)"
      "stop_outside_lock False (ec @ evs)"
      by (simp_all add: stop_outside_lock_quiet)
    ultimately show ?thesis by blast
  next
    case (Raise e)
    with rb False c have "r = Raise e" "s' = s0" by (simp_all add: rebalance_def and_then_def)
    moreover have "stop_outside_lock False (ec @ [])"
      using stop_outside_lock_quiet[OF ec(2), of False "[]"] by simp
    ultimately show ?thesis using ce(2) free ec(1) by auto
  next
    case Blocked
    with ce(1) show ?thesis by simp
  qed
qed

section \<open>Claims about the retry loop and the deferred stop\<close>

text \<open>
  Claim C3. With a backoff that is not negative (\<^verbatim>\<open>time.sleep\<close> refuses a negative
  length): when the pass of retry iteration \<open>i\<close> raises \<^verbatim>\<open>PartitionOwnedError\<close>, the loop
  raises that error to its caller if \<open>i = rebalance_max_retries - 1\<close>, and otherwise
  sleeps \<open>i * (rebalance_backoff_ms / 1000)\<close> seconds, that is \<open>i * rebalance_backoff_ms\<close>
  milliseconds, and goes on with the next iteration. When the whole loop raises
  \<^verbatim>\<open>PartitionOwnedError\<close>, it has slept after each of the iterations
  \<open>0, \<dots>, rebalance_max_retries - 2\<close>, so the error comes after \<open>rebalance_max_retries\<close>
  attempts; and \<^verbatim>\<open>_rebalance\<close> releases the lock and raises the error to its caller.
\<close>

theorem partition_owned_retried_then_raised:
  assumes backoff: "0 \<le> rebalance_backoff_ms s"
  shows "(\<forall>i rest p s'. rebalance_pass s = (Raise (PartitionOwnedError p), s') \<longrightarrow>
            rebalance_loop (i # rest) s =
              (if int i = rebalance_max_retries s - 1 then (Raise (PartitionOwnedError p), s')
               else rebalance_loop rest
                      (s'\<lparr>zookeeper := map_option (peers (env s') (sleeps s')) (zookeeper s'),
                          sleeps := Suc (sleeps s'),
                          trace := trace s' @
                            [Sleep (real i * (real_of_int (rebalance_backoff_ms s) / 1000))]\<rparr>)))
       \<and> (\<forall>p s'. rebalance_loop [0..<nat (rebalance_max_retries s)] s
                     = (Raise (PartitionOwnedError p), s') \<longrightarrow>
            filter is_sleep (new_events s s') =
              map (\<lambda>i. Sleep (real i * (real_of_int (rebalance_backoff_ms s) / 1000)))
                [0..<nat (rebalance_max_retries s) - 1])
       \<and> (\<forall>p s'. \<not> rebalancing_lock s \<and> running s \<and>
              rebalance_loop [0..<nat (rebalance_max_retries s)]
                (s\<lparr>rebalancing_lock := True, trace := trace s @ [LockAcquire]\<rparr>)
                = (Raise (PartitionOwnedError p), s') \<longrightarrow>
            rebalance_locked s =
              (Raise (PartitionOwnedError p),
               s'\<lparr>rebalancing_lock := False, trace := trace s' @ [LockRelease]\<rparr>))"
proof (intro conjI allI impI)
  fix i rest p s'
  assume "rebalance_pass s = (Raise (PartitionOwnedError p), s')"
  from rebalance_loop_retry[OF this backoff]
  show "rebalance_loop (i # rest) s =
              (if int i = rebalance_max_retries s - 1 then (Raise (PartitionOwnedError p), s')
               else rebalance_loop rest
                      (s'\<lparr>zookeeper := map_option (peers (env s') (sleeps s')) (zookeeper s'),
                          sleeps := Suc (sleeps s'),
                          trace := trace s' @
                            [Sleep (real i * (real_of_int (rebalance_backoff_ms s) / 1000))]\<rparr>))" .
next
  fix p s'
  assume run: "rebalance_loop [0..<nat (rebalance_max_retries s)] s
                 = (Raise (PartitionOwnedError p), s')"
  have "0 < nat (rebalance_max_retries s)"
  proof (rule ccontr)
    assume "\<not> ?thesis"
    then have "[0..<nat (rebalance_max_retries s)] = []" by simp
    with run show False by simp
  qed
  then have "int (nat (rebalance_max_retries s)) = rebalance_max_retries s" by simp
  from rebalance_loop_sleeps[OF run this backoff]
  show "filter is_sleep (new_events s s') =
          map (\<lambda>i. Sleep (real i * (real_of_int (rebalance_backoff_ms s) / 1000)))
            [0..<nat (rebalance_max_retries s) - 1]" .
next
  fix p s'
  assume a: "\<not> rebalancing_lock s \<and> running s \<and>
              rebalance_loop [0..<nat (rebalance_max_retries s)]
                (s\<lparr>rebalancing_lock := True, trace := trace s @ [LockAcquire]\<rparr>)
                = (Raise (PartitionOwnedError p), s')"
  then have free: "\<not> rebalancing_lock s" and run: "running s"
    and loop: "rebalance_loop [0..<nat (rebalance_max_retries s)]
                (s\<lparr>rebalancing_lock := True, trace := trace s @ [LockAcquire]\<rparr>)
                = (Raise (PartitionOwnedError p), s')"
    by simp_all
  from rebalance_locked_running[OF free run loop]
  show "rebalance_locked s =
              (Raise (PartitionOwnedError p),
               s'\<lparr>rebalancing_lock := False, trace := trace s' @ [LockRelease]\<rparr>)"
    by simp
qed

text \<open>
  The theorem at member \<open>b\<close> whose partition stays owned by \<open>a\<close>, with three retries and
  a backoff of 2000 ms: the error is raised after sleeps of 0 and 2 seconds.
\<close>

theorem partition_owned_retried_then_raised_witness:
  "0 \<le> rebalance_backoff_ms ex_collision
   \<and> fst (rebalance_loop [0..<nat (rebalance_max_retries ex_collision)] ex_collision)
       = Raise (PartitionOwnedError (ex_partition 2))
   \<and> filter is_sleep (new_events ex_collision
        (snd (rebalance_loop [0..<nat (rebalance_max_retries ex_collision)] ex_collision)))
       = [Sleep 0, Sleep 2]"
proof -
  let ?run = "rebalance_loop [0..<nat (rebalance_max_retries ex_collision)] ex_collision"
  have h: "0 \<le> rebalance_backoff_ms ex_collision" by code_simp
  have r: "fst ?run = Raise (PartitionOwnedError (ex_partition 2))" by code_simp
  then have "?run = (Raise (PartitionOwnedError (ex_partition 2)), snd ?run)"
    by (metis prod.collapse)
  with partition_owned_retried_then_raised[OF h]
  have "filter is_sleep (new_events ex_collision (snd ?run)) =
      map (\<lambda>i. Sleep (real i * (real_of_int (rebalance_backoff_ms ex_collision) / 1000)))
        [0..<nat (rebalance_max_retries ex_collision) - 1]"
    by blast
  moreover have "map (\<lambda>i. Sleep (real i * (real_of_int (rebalance_backoff_ms ex_collision) / 1000)))
        [0..<nat (rebalance_max_retries ex_collision) - 1] = [Sleep 0, Sleep 2]"
    by code_simp
  ultimately show ?thesis using h r by simp
qed

text \<open>
  Claim C4. When there are fewer partitions than distinct participants, the member at
  sorted position \<open>i\<close> gets the empty assignment exactly when \<open>i\<close> is one of the last
  \<open>|P| - |T|\<close> positions. A pass whose assignment is empty leaves the loop with
  \<^verbatim>\<open>should_stop\<close> set, in the state in which the participants were read: the ownership
  records and the inner consumer are untouched, and no ownership record was created or
  deleted. When the loop ends with \<^verbatim>\<open>should_stop\<close> set, \<^verbatim>\<open>_rebalance\<close> calls \<^verbatim>\<open>stop\<close> in
  the state in which the lock has been released. In every run of \<^verbatim>\<open>_rebalance\<close> that
  starts with the lock free, the call returns, leaves the lock free, and every entry into
  \<^verbatim>\<open>stop\<close> in its trace finds the lock free.
\<close>

theorem empty_assignment_defers_stop:
  "(\<forall>tp P i. distinct P \<and> length (partition_values tp) < length P \<and> i < length P \<longrightarrow>
      (decide_partitions tp (sort P ! i) P = Inr {} \<longleftrightarrow> length (partition_values tp) \<le> i))
   \<and> (\<forall>(s::consumer) ps s1. current_participants s = (Return ps, s1)
          \<and> decide_partitions (topic s1) (consumer_id s1) ps = Inr {} \<longrightarrow>
        rebalance_pass s = (Return True, s1)
        \<and> (\<forall>i rest. rebalance_loop (i # rest) s = (Return True, s1))
        \<and> map_option zk_owners (zookeeper s1) = map_option zk_owners (zookeeper s)
        \<and> inner s1 = inner s
        \<and> list_all (\<lambda>ev. \<not> is_ownership_event ev) (new_events s s1))
   \<and> (\<forall>(s::consumer) s2. \<not> rebalancing_lock s \<and> running s
          \<and> rebalance_loop [0..<nat (rebalance_max_retries s)]
                (s\<lparr>rebalancing_lock := True, trace := trace s @ [LockAcquire]\<rparr>)
              = (Return True, s2) \<longrightarrow>
        rebalance_locked s
          = stop (s2\<lparr>rebalancing_lock := False, trace := trace s2 @ [LockRelease]\<rparr>))
   \<and> (\<forall>s::consumer. \<not> rebalancing_lock s \<longrightarrow>
        fst (rebalance s) \<noteq> Blocked
        \<and> \<not> rebalancing_lock (snd (rebalance s))
        \<and> stop_outside_lock False (new_events s (snd (rebalance s))))"
proof (intro conjI allI impI)
  fix tp :: topic and P :: "string list" and i
  assume "distinct P \<and> length (partition_values tp) < length P \<and> i < length P"
  then show "decide_partitions tp (sort P ! i) P = Inr {} \<longleftrightarrow> length (partition_values tp) \<le> i"
    by (intro empty_assignment_iff) simp_all
next
  fix s :: consumer and ps s1
  assume a: "current_participants s = (Return ps, s1)
          \<and> decide_partitions (topic s1) (consumer_id s1) ps = Inr {}"
  then have cp: "current_participants s = (Return ps, s1)"
    and em: "decide_partitions (topic s1) (consumer_id s1) ps = Inr {}" by simp_all
  from rebalance_pass_empty[OF cp em] show pass: "rebalance_pass s = (Return True, s1)" .
  from current_participants_keeps_owners[OF cp]
  show "map_option zk_owners (zookeeper s1) = map_option zk_owners (zookeeper s)"
    "inner s1 = inner s" "list_all (\<lambda>ev. \<not> is_ownership_event ev) (new_events s s1)" .
  fix i rest
  from pass show "rebalance_loop (i # rest) s = (Return True, s1)" by simp
next
  fix s :: consumer and s2
  assume a: "\<not> rebalancing_lock s \<and> running s
          \<and> rebalance_loop [0..<nat (rebalance_max_retries s)]
                (s\<lparr>rebalancing_lock := True, trace := trace s @ [LockAcquire]\<rparr>)
              = (Return True, s2)"
  then have free: "\<not> rebalancing_lock s" and run: "running s"
    and loop: "rebalance_loop [0..<nat (rebalance_max_retries s)]
                (s\<lparr>rebalancing_lock := True, trace := trace s @ [LockAcquire]\<rparr>)
              = (Return True, s2)" by simp_all
  from rebalance_locked_running[OF free run loop]
  show "rebalance_locked s
          = stop (s2\<lparr>rebalancing_lock := False, trace := trace s2 @ [LockRelease]\<rparr>)"
    by simp
next
  fix s :: consumer
  assume free: "\<not> rebalancing_lock s"
  obtain r s' where rb: "rebalance s = (r, s')" by force
  from rebalance_effect[OF free rb] obtain evs where
    e: "r \<noteq> Blocked" "\<not> rebalancing_lock s'" "trace s' = trace s @ evs"
      "stop_outside_lock False evs" by blast
  from e(3) have ne: "new_events s s' = evs" by (rule new_events_eqI)
  from e(1) rb show "fst (rebalance s) \<noteq> Blocked" by simp
  from e(2) rb show "\<not> rebalancing_lock (snd (rebalance s))" by simp
  from e(4) ne rb show "stop_outside_lock False (new_events s (snd (rebalance s)))" by simp
qed

text \<open>
  The theorem at member \<open>c\<close> of three members on two partitions: it stops itself after
  the lock is released.
\<close>

theorem empty_assignment_defers_stop_witness:
  "\<not> rebalancing_lock ex_crowded
   \<and> fst (rebalance ex_crowded) = Return ()
   \<and> stop_outside_lock False (new_events ex_crowded (snd (rebalance ex_crowded)))
   \<and> new_events ex_crowded (snd (rebalance ex_crowded))
       = [LockAcquire, LockRelease, StopCalled, LockAcquire, LockRelease,
          ZkDelete (ConsumerIdNode ''c'')]"
proof -
  have free: "\<not> rebalancing_lock ex_crowded" by code_simp
  have r: "fst (rebalance ex_crowded) = Return ()" by code_simp
  have evs: "new_events ex_crowded (snd (rebalance ex_crowded))
       = [LockAcquire, LockRelease, StopCalled, LockAcquire, LockRelease,
          ZkDelete (ConsumerIdNode ''c'')]"
    by code_simp
  from empty_assignment_defers_stop free
  have "stop_outside_lock False (new_events ex_crowded (snd (rebalance ex_crowded)))"
    by blast
  with free r evs show ?thesis by blast
qed

section \<open>Claims about start, the commit before a rebalance, and stored errors\<close>

lemma stop_called: "StopCalled \<in> set (new_events s (snd (stop s)))"
proof (cases "rebalancing_lock s")
  case True
  then show ?thesis by (simp add: stop_blocked new_events_def)
next
  case False
  obtain r s' where st: "stop s = (r, s')" by force
  from stop_effect(4)[OF False st] obtain evs where
    "trace s' = trace s @ [StopCalled, LockAcquire, LockRelease] @ evs" by blast
  then have "new_events s s' = [StopCalled, LockAcquire, LockRelease] @ evs"
    by (rule new_events_eqI)
  with st show ?thesis by simp
qed

text \<open>
  Claim C5, as amended. For every exception raised in the body of \<^verbatim>\<open>start\<close> (session
  setup, path creation, self-registration, watch installation, the first rebalance, the
  checker spawn), \<^verbatim>\<open>start\<close> logs, calls \<^verbatim>\<open>stop\<close> in the state the failure left, and
  ends as that call of \<^verbatim>\<open>stop\<close> ends: the exception is not raised again, so \<^verbatim>\<open>start\<close>
  returns normally whenever \<^verbatim>\<open>stop\<close> does.
\<close>

theorem start_failure_stops_and_is_swallowed:
  assumes "start_body s = (Raise e, s1)"
  shows "start s = stop (s1\<lparr>trace := trace s1 @ [LogStartError]\<rparr>)
       \<and> StopCalled \<in> set (new_events (s1\<lparr>trace := trace s1 @ [LogStartError]\<rparr>) (snd (start s)))
       \<and> (\<forall>s2. stop (s1\<lparr>trace := trace s1 @ [LogStartError]\<rparr>) = (Return (), s2)
              \<longrightarrow> start s = (Return (), s2))"
proof -
  from assms have eq: "start s = stop (s1\<lparr>trace := trace s1 @ [LogStartError]\<rparr>)"
    by (simp add: start_def catch_def and_then_def emit_def)
  with stop_called[of "s1\<lparr>trace := trace s1 @ [LogStartError]\<rparr>"] show ?thesis by simp
qed

text \<open>The theorem at a new member of a full group, whose self-registration fails.\<close>

theorem start_failure_stops_and_is_swallowed_witness:
  "fst (start_body ex_no_room) = Raise KafkaException
   \<and> start ex_no_room
       = stop ((snd (start_body ex_no_room))
                 \<lparr>trace := trace (snd (start_body ex_no_room)) @ [LogStartError]\<rparr>)
   \<and> new_events ex_no_room (snd (start ex_no_room))
       = [ZkSessionStart, LogStartError, StopCalled, LockAcquire, LockRelease, ZkSessionStop]"
proof -
  have b: "fst (start_body ex_no_room) = Raise KafkaException" by code_simp
  then have "start_body ex_no_room = (Raise KafkaException, snd (start_body ex_no_room))"
    by (metis prod.collapse)
  from start_failure_stops_and_is_swallowed[OF this]
  have "start ex_no_room
       = stop ((snd (start_body ex_no_room))
                 \<lparr>trace := trace (snd (start_body ex_no_room)) @ [LogStartError]\<rparr>)"
    by blast
  moreover have "new_events ex_no_room (snd (start ex_no_room))
       = [ZkSessionStart, LogStartError, StopCalled, LockAcquire, LockRelease, ZkSessionStop]"
    by code_simp
  ultimately show ?thesis using b by blast
qed

text \<open>
  Claim C5 as it was stated says that \<^verbatim>\<open>start\<close> propagates the exception. Here the body
  of \<^verbatim>\<open>start\<close> raises \<^verbatim>\<open>KafkaException\<close>, \<^verbatim>\<open>stop\<close> is called, and \<^verbatim>\<open>start\<close> returns
  normally.
\<close>

theorem start_swallows_failure:
  "fst (start_body ex_no_room) = Raise KafkaException
   \<and> fst (start ex_no_room) = Return ()
   \<and> StopCalled \<in> set (trace (snd (start ex_no_room)))"
  by code_simp

lemma commit_offsets_return:
  assumes "commit_offsets s = (Return u, s1)"
  shows "trace s1 = trace s @ [InnerCommit]"
  using assms
  by (auto simp: commit_offsets_def raise_worker_exceptions_def inner_commit_offsets_def
      and_then_def split: option.splits if_splits)

lemma commit_offsets_raise:
  assumes "commit_offsets s = (Raise e, s1)"
  shows "LockAcquire \<notin> set (new_events s s1)"
  using assms
  by (auto simp: commit_offsets_def raise_worker_exceptions_def inner_commit_offsets_def
      and_then_def new_events_def split: option.splits if_splits)

text \<open>
  Claim C7, as amended. When \<^verbatim>\<open>_rebalance\<close> begins while an inner consumer exists, it
  first calls \<^verbatim>\<open>commit_offsets\<close>. If that call raises (a stored worker error, or a
  failure of the inner consumer's commit), \<^verbatim>\<open>_rebalance\<close> raises the same exception in
  the state the call left: the lock is never acquired, and the coordinator and the inner
  consumer are as before. If the call returns, the inner commit is the only event so far
  and \<^verbatim>\<open>_rebalance\<close> goes on with the locked part.
\<close>

theorem rebalance_commits_first_and_stops_on_failure:
  assumes "inner s \<noteq> None"
  shows "(\<forall>e s1. commit_offsets s = (Raise e, s1) \<longrightarrow>
            rebalance s = (Raise e, s1)
            \<and> LockAcquire \<notin> set (new_events s s1)
            \<and> rebalancing_lock s1 = rebalancing_lock s
            \<and> zookeeper s1 = zookeeper s \<and> inner s1 = inner s)
       \<and> (\<forall>s1. commit_offsets s = (Return (), s1) \<longrightarrow>
            new_events s s1 = [InnerCommit] \<and> rebalance s = rebalance_locked s1)"
proof (intro conjI allI impI)
  fix e s1
  assume c: "commit_offsets s = (Raise e, s1)"
  with assms show "rebalance s = (Raise e, s1)"
    by (simp add: rebalance_def and_then_def)
  from commit_offsets_raise[OF c] show "LockAcquire \<notin> set (new_events s s1)" .
  from commit_offsets_effect[OF c]
  show "rebalancing_lock s1 = rebalancing_lock s" "zookeeper s1 = zookeeper s"
    "inner s1 = inner s" by simp_all
next
  fix s1
  assume c: "commit_offsets s = (Return (), s1)"
  from commit_offsets_return[OF c] show "new_events s s1 = [InnerCommit]"
    by (rule new_events_eqI)
  from c assms show "rebalance s = rebalance_locked s1"
    by (simp add: rebalance_def and_then_def)
qed

text \<open>The theorem at a member whose inner consumer fails to commit.\<close>

theorem rebalance_commits_first_and_stops_on_failure_witness:
  "inner ex_commit_fails \<noteq> None
   \<and> fst (commit_offsets ex_commit_fails) = Raise (OtherError ''commit failed'')
   \<and> rebalance ex_commit_fails
       = (Raise (OtherError ''commit failed''), snd (commit_offsets ex_commit_fails))
   \<and> LockAcquire \<notin> set (new_events ex_commit_fails (snd (commit_offsets ex_commit_fails)))"
proof -
  have i: "inner ex_commit_fails \<noteq> None" by code_simp
  have c: "fst (commit_offsets ex_commit_fails) = Raise (OtherError ''commit failed'')"
    by code_simp
  then have "commit_offsets ex_commit_fails
      = (Raise (OtherError ''commit failed''), snd (commit_offsets ex_commit_fails))"
    by (metis prod.collapse)
  with rebalance_commits_first_and_stops_on_failure[OF i] i c show ?thesis by blast
qed

text \<open>
  Claim C7 as it was stated says that a failed commit does not abort the rebalance. Here
  the commit fails, and \<^verbatim>\<open>_rebalance\<close> raises its exception after the commit alone: no
  lock, no retry loop, no change of the coordinator.
\<close>

theorem commit_failure_aborts_rebalance:
  "inner ex_commit_fails \<noteq> None
   \<and> fst (rebalance ex_commit_fails) = Raise (OtherError ''commit failed'')
   \<and> new_events ex_commit_fails (snd (rebalance ex_commit_fails)) = [InnerCommit]
   \<and> zookeeper (snd (rebalance ex_commit_fails)) = zookeeper ex_commit_fails"
  by code_simp

lemma raise_worker_exceptions_stored:
  assumes "worker_exception s = Some e"
  shows "raise_worker_exceptions s =
           (Raise e, if worker_trace_logged s then s
                     else s\<lparr>worker_trace_logged := True, trace := trace s @ [LogWorkerTrace]\<rparr>)"
  using assms by (simp add: raise_worker_exceptions_def)

text \<open>
  Claim C6, as amended. While a background error is stored, \<^verbatim>\<open>commit_offsets\<close> and
  \<^verbatim>\<open>reset_offsets\<close> raise it on every call: the call leaves the error stored, logs the
  traceback only if it was not logged before, and a further call from the state it left
  raises the error again and changes nothing. \<^verbatim>\<open>consume\<close> raises it, too, when partitions
  are held and no consumer timeout is set; with no partition held it raises
  \<^verbatim>\<open>NoPartitionsForConsumerException\<close> instead.
\<close>

theorem stored_worker_error_raised_on_every_call:
  assumes stored: "worker_exception s = Some e"
  shows "\<exists>s'. commit_offsets s = (Raise e, s') \<and> reset_offsets s = (Raise e, s')
            \<and> worker_exception s' = Some e \<and> worker_trace_logged s'
            \<and> new_events s s' = (if worker_trace_logged s then [] else [LogWorkerTrace])
            \<and> commit_offsets s' = (Raise e, s') \<and> reset_offsets s' = (Raise e, s')
            \<and> (\<forall>n block. held_partitions s \<noteq> [] \<and> consumer_timeout_ms s = - 1 \<longrightarrow>
                  (\<exists>s''. consume (Suc n) block s = Some (Raise e, s'')
                         \<and> worker_exception s'' = Some e))
            \<and> (\<forall>n block. held_partitions s = [] \<longrightarrow>
                  consume n block s = Some (Raise NoPartitionsForConsumerException, s))"
proof -
  let ?s' = "if worker_trace_logged s then s
             else s\<lparr>worker_trace_logged := True, trace := trace s @ [LogWorkerTrace]\<rparr>"
  note r = raise_worker_exceptions_stored[OF stored]
  have s'st: "worker_exception ?s' = Some e" using stored by simp
  have logged: "worker_trace_logged ?s'" by simp
  have r': "raise_worker_exceptions ?s' = (Raise e, ?s')"
    using raise_worker_exceptions_stored[OF s'st] logged by simp
  have c1: "commit_offsets s = (Raise e, ?s')" using r by (simp add: commit_offsets_def and_then_def)
  have c2: "reset_offsets s = (Raise e, ?s')" using r by (simp add: reset_offsets_def and_then_def)
  have c3: "commit_offsets ?s' = (Raise e, ?s')"
    using r' by (simp add: commit_offsets_def and_then_def)
  have c4: "reset_offsets ?s' = (Raise e, ?s')"
    using r' by (simp add: reset_offsets_def and_then_def)
  have ev: "new_events s ?s' = (if worker_trace_logged s then [] else [LogWorkerTrace])"
    by (simp add: new_events_def)
  have cons: "\<exists>s''. consume (Suc n) block s = Some (Raise e, s'') \<and> worker_exception s'' = Some e"
    if "held_partitions s \<noteq> [] \<and> consumer_timeout_ms s = - 1" for n block
  proof -
    let ?t = "s\<lparr>clock_reads := Suc (clock_reads s),
                last_message_time := clock (env s) (clock_reads s)\<rparr>"
    have w: "worker_exception ?t = Some e" using stored by simp
    have "consume (Suc n) block s = Some (Raise e, snd (raise_worker_exceptions ?t))"
      using that raise_worker_exceptions_stored[OF w]
      by (simp add: consume_def time_now_def consumer_timed_out_def)
    moreover have "worker_exception (snd (raise_worker_exceptions ?t)) = Some e"
      using raise_worker_exceptions_stored[OF w] w by simp
    ultimately show ?thesis by blast
  qed
  have none: "consume n block s = Some (Raise NoPartitionsForConsumerException, s)"
    if "held_partitions s = []" for n block
    using that by (simp add: consume_def)
  from c1 c2 s'st logged ev c3 c4 cons none show ?thesis by blast
qed

text \<open>The theorem at a member with a stored error.\<close>

theorem stored_worker_error_raised_on_every_call_witness:
  "worker_exception ex_worker_failed = Some (OtherError ''worker failed'')
   \<and> (\<exists>s'. commit_offsets ex_worker_failed = (Raise (OtherError ''worker failed''), s')
          \<and> commit_offsets s' = (Raise (OtherError ''worker failed''), s'))
   \<and> fst (the (consume 1 True ex_worker_failed)) = Raise (OtherError ''worker failed'')"
proof -
  have w: "worker_exception ex_worker_failed = Some (OtherError ''worker failed'')"
    by code_simp
  have c: "fst (the (consume 1 True ex_worker_failed)) = Raise (OtherError ''worker failed'')"
    by code_simp
  from stored_worker_error_raised_on_every_call[OF w] w c show ?thesis by blast
qed

text \<open>
  Claim C6 as it was stated says that a stored error is raised exactly once. Here one
  error is stored and never replaced; \<^verbatim>\<open>commit_offsets\<close> raises it, raises it again on the
  next call, and \<^verbatim>\<open>reset_offsets\<close> raises it a third time. And \<^verbatim>\<open>consume\<close> as the first
  call of a member without partitions raises another exception, not the stored one.
\<close>

theorem stored_worker_error_raised_twice:
  "worker_exception ex_worker_failed = Some (OtherError ''worker failed'')
   \<and> fst (commit_offsets ex_worker_failed) = Raise (OtherError ''worker failed'')
   \<and> worker_exception (snd (commit_offsets ex_worker_failed))
       = Some (OtherError ''worker failed'')
   \<and> fst (commit_offsets (snd (commit_offsets ex_worker_failed)))
       = Raise (OtherError ''worker failed'')
   \<and> fst (reset_offsets (snd (commit_offsets (snd (commit_offsets ex_worker_failed)))))
       = Raise (OtherError ''worker failed'')
   \<and> fst (the (consume 1 True (ex_worker_failed\<lparr>inner := None\<rparr>)))
       = Raise NoPartitionsForConsumerException"
  by code_simp

lemma stop_keeps_inner_presence:
  assumes "stop s = (r, s')"
  shows "inner s' = None \<longleftrightarrow> inner s = None"
proof (cases "rebalancing_lock s")
  case True
  with assms show ?thesis by (auto simp: stop_blocked)
next
  case False
  let ?s0 = "s\<lparr>running := False, rebalancing_lock := False,
               trace := trace s @ [StopCalled, LockAcquire, LockRelease]\<rparr>"
  from assms stop_unfold[OF False] have t: "stop_tail ?s0 = (r, s')" by simp
  have zk_inner: "inner b = inner a" if "zk_stop a = (x, b)" for a b x
    using that by (auto simp: zk_stop_def zk_client_def zk_put_def emit_def and_then_def
        split: option.splits)
  have del_inner: "inner b = inner a" if "zk_delete_owner n a = (x, b)" for a b x n
    using that by (auto simp: zk_delete_owner_def zk_client_def zk_put_def emit_def and_then_def
        raise_def split: option.splits if_splits)
  have rem_inner: "inner b = inner a" if "remove_partitions ps a = (x, b)" for ps a b x
    using that
  proof (induction ps arbitrary: a)
    case Nil
    then show ?case by simp
  next
    case (Cons p ps)
    obtain r1 s1 where d: "zk_delete_owner (partition_slug p) a = (r1, s1)" by force
    with Cons del_inner[OF d] show ?case by (cases r1) auto
  qed
  have id_inner: "inner b = inner a"
    if "catch (zk_delete_id n) (\<lambda>e. if e = NoNodeException then return () else raise e) a = (x, b)"
    for a b x n
    using that by (auto simp: catch_def zk_delete_id_def zk_client_def zk_put_def emit_def
        and_then_def raise_def return_def split: option.splits if_splits)
  obtain r1 s1 where i: "(if inner ?s0 \<noteq> None then inner_stop ?s0 else (Return (), ?s0)) = (r1, s1)"
    by force
  then have i1: "inner s1 = None \<longleftrightarrow> inner s = None"
    by (auto simp: inner_stop_def split: if_splits option.splits)
  show ?thesis
  proof (cases r1)
    case (Return u)
    with t i have rest: "(if owns_zookeeper s1 then zk_stop s1
       else and_then get_held_partitions (\<lambda>held.
         and_then (\<lambda>s'. remove_partitions (set_order (env s') held) s') (\<lambda>_ s'.
           catch (zk_delete_id (consumer_id s'))
             (\<lambda>e. if e = NoNodeException then return () else raise e) s')) s1) = (r, s')"
      by (simp add: stop_tail_def and_then_def)
    have "inner s' = inner s1"
    proof (cases "owns_zookeeper s1")
      case True
      with rest show ?thesis by (auto dest: zk_inner)
    next
      case False
      with rest show ?thesis
        by (auto elim!: and_then_cases dest!: get_held_partitions_same rem_inner id_inner)
    qed
    with i1 show ?thesis by simp
  next
    case (Raise e)
    with t i have "s' = s1" by (simp add: stop_tail_def and_then_def)
    with i1 show ?thesis by simp
  next
    case Blocked
    with t i have "s' = s1" by (simp add: stop_tail_def and_then_def)
    with i1 show ?thesis by simp
  qed
qed

section \<open>Node names read back\<close>

lemma digit_cases:
  assumes "d < (10::nat)"
  obtains "d = 0" | "d = 1" | "d = 2" | "d = 3" | "d = 4" | "d = 5" | "d = 6" | "d = 7"
    | "d = 8" | "d = 9"
  using assms by atomize_elim arith

lemma digit_char_props:
  assumes "d < 10"
  shows "is_digit (digit_char d)" "digit_value (digit_char d) = d"
    "digit_char d \<noteq> CHR ''-''" "digit_char d \<noteq> CHR ''+''" "\<not> is_space (digit_char d)"
  using assms
  by (cases d rule: digit_cases; simp add: is_digit_def digit_char_def digit_value_def is_space_def)+

lemma str_nat_digits: "list_all is_digit (str_nat n)"
proof (induction n rule: str_nat.induct)
  case (1 n)
  show ?case
  proof (cases "n < 10")
    case True
    then show ?thesis by (subst str_nat.simps) (simp add: digit_char_props)
  next
    case False
    with 1 show ?thesis by (subst str_nat.simps) (simp add: digit_char_props)
  qed
qed

lemma str_nat_nonempty: "str_nat n \<noteq> []"
  by (subst str_nat.simps) simp

lemma digits_value_snoc: "digits_value (ds @ [c]) = 10 * digits_value ds + digit_value c"
  by (simp add: digits_value_def)

lemma digits_value_str_nat: "digits_value (str_nat n) = n"
proof (induction n rule: str_nat.induct)
  case (1 n)
  show ?case
  proof (cases "n < 10")
    case True
    then show ?thesis
      by (subst str_nat.simps) (simp add: digits_value_def digit_char_props)
  next
    case False
    with 1 have "digits_value (str_nat (n div 10)) = n div 10" by simp
    with False show ?thesis
      by (subst str_nat.simps) (simp add: digits_value_snoc digit_char_props)
  qed
qed

lemma is_digit_props:
  assumes "is_digit c"
  shows "c \<noteq> CHR ''-''" "c \<noteq> CHR ''+''" "\<not> is_space c"
  using assms by (auto simp: is_digit_def is_space_def)

lemma strip_digits:
  assumes "list_all is_digit ds"
  shows "strip ds = ds"
proof (cases ds rule: rev_cases)
  case Nil
  then show ?thesis by (simp add: strip_def)
next
  case (snoc ys y)
  with assms have y: "\<not> is_space y" by (simp add: is_digit_props)
  show ?thesis
  proof (cases ds)
    case Nil
    with snoc show ?thesis by simp
  next
    case (Cons x xs)
    with assms have x: "\<not> is_space x" by (simp add: is_digit_props)
    with Cons have "dropWhile is_space ds = ds" by simp
    moreover from snoc y have "dropWhile is_space (rev ds) = rev ds" by simp
    ultimately show ?thesis by (simp add: strip_def)
  qed
qed

lemma int_of_str_str_nat: "int_of_str (str_nat n) = Inr (int n)"
proof -
  have d: "list_all is_digit (str_nat n)" by (rule str_nat_digits)
  have ne: "str_nat n \<noteq> []" by (rule str_nat_nonempty)
  then obtain x xs where c: "str_nat n = x # xs" by (cases "str_nat n") auto
  with d have "is_digit x" by simp
  then have "x \<noteq> CHR ''-''" "x \<noteq> CHR ''+''" by (simp_all add: is_digit_props)
  with c have hd: "hd (str_nat n) \<noteq> CHR ''-''" "hd (str_nat n) \<noteq> CHR ''+''" by simp_all
  show ?thesis
    using d ne hd by (simp add: int_of_str_def strip_digits Let_def digits_value_str_nat)
qed

lemma split_on_no_sep: "c \<notin> set xs \<Longrightarrow> split_on c xs = [xs]"
  by (induction xs) auto

lemma split_on_append:
  "c \<notin> set xs \<Longrightarrow> split_on c (xs @ c # ys) = xs # split_on c ys"
  by (induction xs) auto

lemma str_nat_no_dash: "CHR ''-'' \<notin> set (str_nat n)"
proof
  assume "CHR ''-'' \<in> set (str_nat n)"
  with str_nat_digits[of n] have "is_digit CHR ''-''" by (simp add: list_all_iff)
  then show False by (simp add: is_digit_def)
qed

lemma slug_roundtrip:
  assumes "0 \<le> p_leader_id p" and "0 \<le> p_id p"
  shows "slug_partition_id (partition_slug p) = Inr (p_id p)"
proof -
  let ?l = "str_nat (nat (p_leader_id p))" and ?i = "str_nat (nat (p_id p))"
  from assms have slug: "partition_slug p = ?l @ CHR ''-'' # ?i"
    by (simp add: partition_slug_def str_int_def)
  have "split_on CHR ''-'' (partition_slug p) = [?l, ?i]"
    unfolding slug by (simp add: split_on_append split_on_no_sep str_nat_no_dash)
  then have "slug_partition_id (partition_slug p) = int_of_str ?i"
    by (simp add: slug_partition_id_def item_def)
  with assms(2) show ?thesis by (simp add: int_of_str_str_nat)
qed

section \<open>What the registry calls do to the ownership records\<close>

lemma held_ids_set:
  "held_ids me owners = Inr ids \<Longrightarrow>
     set ids = {i. \<exists>slug. (slug, me) \<in> set owners \<and> slug_partition_id slug = Inr i}"
proof (induction owners arbitrary: ids)
  case Nil
  then show ?case by simp
next
  case (Cons a owners)
  obtain slug owner where a: "a = (slug, owner)" by (cases a)
  show ?case
  proof (cases "owner = me")
    case True
    with Cons.prems a obtain i rest where
      i: "slug_partition_id slug = Inr i" and rest: "held_ids me owners = Inr rest"
      and ids: "ids = i # rest"
      by (auto split: sum.splits)
    from Cons.IH[OF rest] ids i a True show ?thesis by auto
  next
    case False
    with Cons.prems a have "held_ids me owners = Inr ids" by simp
    from Cons.IH[OF this] a False show ?thesis by auto
  qed
qed

lemma held_ids_ok_iff:
  "(\<exists>ids. held_ids me owners = Inr ids) \<longleftrightarrow>
     (\<forall>slug. (slug, me) \<in> set owners \<longrightarrow> (\<exists>i. slug_partition_id slug = Inr i))"
proof (induction owners)
  case Nil
  then show ?case by simp
next
  case (Cons a owners)
  obtain slug owner where a: "a = (slug, owner)" by (cases a)
  show ?case
  proof (cases "owner = me")
    case True
    show ?thesis
    proof (cases "slug_partition_id slug")
      case (Inl e)
      with a True show ?thesis by auto
    next
      case (Inr i)
      with a True Cons.IH show ?thesis by (auto split: sum.splits)
    qed
  next
    case False
    with a Cons.IH show ?thesis by auto
  qed
qed

lemma lookup_all_ok_iff:
  "(\<exists>ps. lookup_all d ids = Inr ps) \<longleftrightarrow> set ids \<subseteq> dom (map_of d)"
proof (induction ids)
  case Nil
  then show ?case by simp
next
  case (Cons i ids)
  show ?case
  proof (cases "map_of d i")
    case None
    then show ?thesis by (auto simp: lookup_def)
  next
    case (Some p)
    with Cons.IH show ?thesis by (auto simp: lookup_def split: sum.splits)
  qed
qed

lemma lookup_all_set:
  "lookup_all d ids = Inr ps \<Longrightarrow> set ps = {p. \<exists>i\<in>set ids. map_of d i = Some p}"
proof (induction ids arbitrary: ps)
  case Nil
  then show ?case by simp
next
  case (Cons i ids)
  from Cons.prems obtain p rest where p: "map_of d i = Some p"
    and rest: "lookup_all d ids = Inr rest" and ps: "ps = p # rest"
    by (auto simp: lookup_def split: sum.splits option.splits)
  from Cons.IH[OF rest] p ps show ?case by auto
qed

lemma get_held_partitions_result:
  assumes zk: "zookeeper s = Some zk" and ow: "zk_owners zk = Some owners"
    and own: "\<forall>slug. (slug, consumer_id s) \<in> set owners \<longrightarrow>
                (\<exists>i. slug_partition_id slug = Inr i \<and> i \<in> dom (map_of (t_partitions (topic s))))"
  shows "\<exists>H. get_held_partitions s = (Return H, s) \<and>
           set H = {p. \<exists>slug i. (slug, consumer_id s) \<in> set owners \<and>
                      slug_partition_id slug = Inr i \<and> map_of (t_partitions (topic s)) i = Some p}"
proof -
  from own have "\<exists>ids. held_ids (consumer_id s) owners = Inr ids"
    by (subst held_ids_ok_iff) blast
  then obtain ids where ids: "held_ids (consumer_id s) owners = Inr ids" by blast
  note idset = held_ids_set[OF ids]
  have "set (remdups ids) \<subseteq> dom (map_of (t_partitions (topic s)))"
    using own idset by auto
  then have "\<exists>ps. lookup_all (t_partitions (topic s)) (remdups ids) = Inr ps"
    by (subst lookup_all_ok_iff)
  then obtain ps where ps: "lookup_all (t_partitions (topic s)) (remdups ids) = Inr ps" by blast
  note pset = lookup_all_set[OF ps]
  have "get_held_partitions s = (Return (remdups ps), s)"
    using zk ow ids ps by (simp add: get_held_partitions_def and_then_def zk_client_def)
  moreover have "set (remdups ps) = {p. \<exists>slug i. (slug, consumer_id s) \<in> set owners \<and>
                      slug_partition_id slug = Inr i \<and> map_of (t_partitions (topic s)) i = Some p}"
    using pset idset by auto
  ultimately show ?thesis by blast
qed

lemma get_held_partitions_Return:
  assumes "get_held_partitions s = (Return H, s')"
  shows "\<exists>zk owners. zookeeper s = Some zk \<and> zk_owners zk = Some owners
          \<and> (\<forall>slug. (slug, consumer_id s) \<in> set owners \<longrightarrow>
                (\<exists>i. slug_partition_id slug = Inr i \<and> i \<in> dom (map_of (t_partitions (topic s)))))
          \<and> set H = {p. \<exists>slug i. (slug, consumer_id s) \<in> set owners \<and>
                      slug_partition_id slug = Inr i \<and> map_of (t_partitions (topic s)) i = Some p}"
proof -
  from assms obtain zk where zk: "zookeeper s = Some zk"
    by (auto simp: get_held_partitions_def and_then_def zk_client_def split: option.splits)
  with assms obtain owners where ow: "zk_owners zk = Some owners"
    by (auto simp: get_held_partitions_def and_then_def zk_client_def split: option.splits)
  with assms zk obtain ids ps where ids: "held_ids (consumer_id s) owners = Inr ids"
    and ps: "lookup_all (t_partitions (topic s)) (remdups ids) = Inr ps" and H: "H = remdups ps"
    by (auto simp: get_held_partitions_def and_then_def zk_client_def split: sum.splits)
  note idset = held_ids_set[OF ids]
  note pset = lookup_all_set[OF ps]
  from ps have dom: "set (remdups ids) \<subseteq> dom (map_of (t_partitions (topic s)))"
    using lookup_all_ok_iff[of "t_partitions (topic s)" "remdups ids"] by blast
  from ids have parse: "\<forall>slug. (slug, consumer_id s) \<in> set owners \<longrightarrow>
      (\<exists>i. slug_partition_id slug = Inr i)"
    using held_ids_ok_iff[of "consumer_id s" owners] by blast
  have own: "\<forall>slug. (slug, consumer_id s) \<in> set owners \<longrightarrow>
                (\<exists>i. slug_partition_id slug = Inr i \<and> i \<in> dom (map_of (t_partitions (topic s))))"
  proof (intro allI impI)
    fix slug assume a: "(slug, consumer_id s) \<in> set owners"
    with parse obtain i where i: "slug_partition_id slug = Inr i" by blast
    with a idset have "i \<in> set ids" by auto
    with dom i show "\<exists>i. slug_partition_id slug = Inr i \<and> i \<in> dom (map_of (t_partitions (topic s)))"
      by auto
  qed
  have "set H = {p. \<exists>slug i. (slug, consumer_id s) \<in> set owners \<and>
                      slug_partition_id slug = Inr i \<and> map_of (t_partitions (topic s)) i = Some p}"
    using pset idset H by auto
  with zk ow own show ?thesis by blast
qed

lemma zk_delete_owner_Return:
  assumes "zk_delete_owner n s = (Return u, s')" and "zookeeper s = Some zk"
    and "zk_owners zk = Some owners"
  shows "zookeeper s' = Some (zk\<lparr>zk_owners := Some (filter (\<lambda>(m, v). m \<noteq> n) owners)\<rparr>)"
  using assms
  by (auto simp: zk_delete_owner_def zk_client_def zk_put_def emit_def and_then_def raise_def
      split: if_splits)

lemma remove_partitions_Return:
  assumes "remove_partitions ps s = (Return u, s')" and "zookeeper s = Some zk"
    and "zk_owners zk = Some owners"
  shows "zookeeper s' =
           Some (zk\<lparr>zk_owners := Some (filter (\<lambda>(m, v). m \<notin> partition_slug ` set ps) owners)\<rparr>)"
  using assms
proof (induction ps arbitrary: s zk owners)
  case Nil
  then show ?case by simp
next
  case (Cons p ps)
  obtain r1 s1 where d: "zk_delete_owner (partition_slug p) s = (r1, s1)" by force
  with Cons.prems(1) obtain u1 where r1: "r1 = Return u1" by (cases r1) auto
  with Cons.prems(1) d have rest: "remove_partitions ps s1 = (Return u, s')" by simp
  let ?o1 = "filter (\<lambda>(m, v). m \<noteq> partition_slug p) owners"
  from zk_delete_owner_Return[OF d[unfolded r1] Cons.prems(2,3)]
  have z1: "zookeeper s1 = Some (zk\<lparr>zk_owners := Some ?o1\<rparr>)" .
  have "zk_owners (zk\<lparr>zk_owners := Some ?o1\<rparr>) = Some ?o1" by simp
  from Cons.IH[OF rest z1 this]
  have "zookeeper s' = Some (zk\<lparr>zk_owners :=
      Some (filter (\<lambda>(m, v). m \<notin> partition_slug ` set ps) ?o1)\<rparr>)" by simp
  moreover have "filter (\<lambda>(m, v). m \<notin> partition_slug ` set ps) ?o1
      = filter (\<lambda>(m, v). m \<notin> partition_slug ` set (p # ps)) owners"
    by (induction owners) auto
  ultimately show ?case by simp
qed

lemma zk_delete_owner_missing:
  assumes "zookeeper s = Some zk" and "zk_owners zk = Some owners"
    and "n \<notin> fst ` set owners"
  shows "zk_delete_owner n s = (Raise NoNodeException, s)"
  using assms by (simp add: zk_delete_owner_def zk_client_def and_then_def raise_def)

lemma zk_create_owner_Return:
  assumes "zk_create_owner n v s = (Return u, s')" and "zookeeper s = Some zk"
    and "zk_owners zk = Some owners"
  shows "zookeeper s' = Some (zk\<lparr>zk_owners := Some (owners @ [(n, v)])\<rparr>)"
  using assms
  by (auto simp: zk_create_owner_def zk_client_def zk_put_def emit_def and_then_def raise_def
      split: if_splits)

lemma add_partitions_Return:
  assumes "add_partitions ps s = (Return u, s')" and "zookeeper s = Some zk"
    and "zk_owners zk = Some owners"
  shows "zookeeper s' =
           Some (zk\<lparr>zk_owners := Some (owners @ map (\<lambda>p. (partition_slug p, consumer_id s)) ps)\<rparr>)"
  using assms
proof (induction ps arbitrary: s zk owners)
  case Nil
  then show ?case by simp
next
  case (Cons p ps)
  obtain r1 s1 where d: "zk_create_owner (partition_slug p) (consumer_id s) s = (r1, s1)"
    by force
  have "\<exists>u1. r1 = Return u1"
  proof (cases r1)
    case (Raise e)
    with Cons.prems(1) d show ?thesis by (cases e) auto
  qed (use Cons.prems(1) d in auto)
  then obtain u1 where r1: "r1 = Return u1" by blast
  with Cons.prems(1) d have rest: "add_partitions ps s1 = (Return u, s')" by simp
  from zk_create_owner_registry[OF d] have cid: "consumer_id s1 = consumer_id s"
    by (rule registry_step_fields)
  let ?o1 = "owners @ [(partition_slug p, consumer_id s)]"
  from zk_create_owner_Return[OF d[unfolded r1] Cons.prems(2,3)]
  have z1: "zookeeper s1 = Some (zk\<lparr>zk_owners := Some ?o1\<rparr>)" .
  have "zk_owners (zk\<lparr>zk_owners := Some ?o1\<rparr>) = Some ?o1" by simp
  from Cons.IH[OF rest z1 this] cid show ?case by simp
qed

lemma wf_topic_lookup:
  assumes "wf_topic tp"
  shows "map_of (t_partitions tp) i = Some p \<longleftrightarrow> p \<in> set (partition_values tp) \<and> p_id p = i"
proof
  assume "map_of (t_partitions tp) i = Some p"
  then have "(i, p) \<in> set (t_partitions tp)" by (rule map_of_SomeD)
  moreover from this assms have "p_id p = i" by (auto simp: wf_topic_def list_all_iff)
  ultimately show "p \<in> set (partition_values tp) \<and> p_id p = i"
    by (force simp: partition_values_def)
next
  assume a: "p \<in> set (partition_values tp) \<and> p_id p = i"
  then obtain k where k: "(k, p) \<in> set (t_partitions tp)" by (auto simp: partition_values_def)
  with assms have "p_id p = k" by (auto simp: wf_topic_def list_all_iff)
  with a k have "(i, p) \<in> set (t_partitions tp)" by simp
  with assms show "map_of (t_partitions tp) i = Some p" by (simp add: wf_topic_def)
qed

lemma wf_topic_roundtrip:
  assumes "wf_topic tp" and "p \<in> set (partition_values tp)"
  shows "slug_partition_id (partition_slug p) = Inr (p_id p)"
proof -
  from assms(2) obtain k where "(k, p) \<in> set (t_partitions tp)"
    by (auto simp: partition_values_def)
  with assms(1) have "0 \<le> p_leader_id p" "0 \<le> p_id p"
    by (auto simp: wf_topic_def list_all_iff)
  then show ?thesis by (rule slug_roundtrip)
qed

lemma decide_slice_subset:
  "decide_slice tp m P = Inr xs \<Longrightarrow> set xs \<subseteq> set (partition_values tp)"
  using decide_partitions_subset[of tp m P "set xs"] by (simp add: decide_partitions_def)

lemma current_participants_registered:
  assumes "current_participants t = (Return ps, t1)"
  shows "\<exists>ps'. get_participants t1 = (Return ps', t1) \<and> mset ps' = mset ps
            \<and> consumer_id t1 \<in> set ps'"
  using assms
  apply (auto simp: current_participants_def get_participants_def add_self_def zk_create_id_def
      zk_client_def zk_put_def emit_def and_then_def raise_def return_def Let_def
      split: option.splits if_splits)
   apply (force simp: image_iff)+
  done

lemma get_participants_cong:
  assumes "get_participants a = (Return ps, a')"
    and "map_option zk_ids (zookeeper b) = map_option zk_ids (zookeeper a)"
    and "topic b = topic a"
  shows "get_participants b = (Return ps, b)"
  using assms
  by (auto simp: get_participants_def zk_client_def and_then_def split: option.splits)

lemma current_participants_listed:
  assumes "get_participants v = (Return ps, v)" and "consumer_id v \<in> set ps"
  shows "current_participants v = (Return ps, v)"
  using assms by (simp add: current_participants_def and_then_def)

lemma rebalance_pass_complete:
  assumes "rebalance_pass t = (Return False, u)"
  obtains ps t1 slice H t2 t3 u0 where
    "current_participants t = (Return ps, t1)"
    "decide_slice (topic t1) (consumer_id t1) ps = Inr slice"
    "remdups slice \<noteq> []"
    "get_held_partitions t1 = (Return H, t1)"
    "remove_partitions (set_order (env t1) (set_diff H (remdups slice))) t1 = (Return (), t2)"
    "add_partitions (set_order (env t2) (set_diff (remdups slice) H)) t2 = (Return (), t3)"
    "(if set (remdups slice) \<noteq> set (held_partitions t3)
      then setup_internal_consumer (set_order (env t3) (remdups slice)) t3
      else (Return (), t3)) = (Return (), u)"
proof -
  from assms[unfolded rebalance_pass_def]
  show ?thesis
  proof (cases rule: and_then_cases)
    case (ret ps t1)
    from ret(2) show ?thesis
    proof (cases rule: and_then_cases)
      case (ret slice t1')
      from ret(1) have sl: "decide_slice (topic t1) (consumer_id t1) ps = Inr slice"
        and t1': "t1' = t1"
        by (auto simp: lift_def split: sum.splits)
      from ret(2) have ne: "remdups slice \<noteq> []"
        by (auto simp: Let_def return_def split: if_splits)
      with ret(2) t1' have rest: "and_then get_held_partitions (\<lambda>current_zk_parts.
            and_then (\<lambda>s. remove_partitions
                             (set_order (env s) (set_diff current_zk_parts (remdups slice))) s) (\<lambda>_.
            and_then (\<lambda>s. add_partitions
                             (set_order (env s) (set_diff (remdups slice) current_zk_parts)) s) (\<lambda>_.
            and_then (\<lambda>s. if set (remdups slice) \<noteq> set (held_partitions s)
                           then setup_internal_consumer (set_order (env s) (remdups slice)) s
                           else (Return (), s)) (\<lambda>_.
            return False)))) t1 = (Return False, u)"
        by (simp add: Let_def)
      from rest show ?thesis
      proof (cases rule: and_then_cases)
        case (ret H t1'')
        from ret(1) have "t1'' = t1" by (rule get_held_partitions_same)
        note gh = ret(1)[unfolded this]
        from ret(2)[unfolded \<open>t1'' = t1\<close>] show ?thesis
        proof (cases rule: and_then_cases)
          case (ret u1 t2)
          note rm = ret(1)
          from ret(2) show ?thesis
          proof (cases rule: and_then_cases)
            case (ret u2 t3)
            note ad = ret(1)
            from ret(2) show ?thesis
            proof (cases rule: and_then_cases)
              case (ret u3 u0)
              from ret(2) have "u0 = u" by (simp add: return_def)
              with ret(1) have "(if set (remdups slice) \<noteq> set (held_partitions t3)
                  then setup_internal_consumer (set_order (env t3) (remdups slice)) t3
                  else (Return (), t3)) = (Return (), u)" by simp
              with that \<open>current_participants t = (Return ps, t1)\<close> sl ne gh rm ad
              show ?thesis by (cases u1, cases u2) blast
            qed simp_all
          qed simp_all
        qed simp_all
      qed simp_all
    qed simp_all
  qed simp_all
qed

lemma set_order_nil:
  assumes "\<forall>xs. set (set_order e xs) = set xs"
  shows "set_order e [] = []"
  using assms[rule_format, of "[]"] by simp

lemma new_simple_consumer_partitions:
  "map snd (sc_partitions (new_simple_consumer w parts r)) = parts"
  by (induction parts) (simp_all add: sc_partitions_def new_simple_consumer_def)

lemma setup_internal_consumer_result:
  assumes "setup_internal_consumer parts s = (r, s')"
  shows "set (held_partitions s') = set parts" "zookeeper s' = zookeeper s"
proof -
  from assms obtain w rs where "inner s' = Some (new_simple_consumer w parts rs)"
    by (auto simp: setup_internal_consumer_def inner_stop_def and_then_def split: option.splits)
  then show "set (held_partitions s') = set parts"
    by (simp add: held_partitions_def partitions_def new_simple_consumer_partitions)
  from assms show "zookeeper s' = zookeeper s"
    by (auto simp: setup_internal_consumer_def inner_stop_def and_then_def split: option.splits)
qed

lemma held_partitions_cong: "inner a = inner b \<Longrightarrow> held_partitions a = held_partitions b"
  by (simp add: held_partitions_def partitions_def)

section \<open>A pass after a completed pass\<close>

lemma second_pass_changes_nothing:
  assumes wf: "wf_topic (topic t)"
    and order: "\<forall>xs. set (set_order (env t) xs) = set xs"
    and first: "rebalance_pass t = (Return False, u)"
    and zkv: "zookeeper v = zookeeper u" and inn: "inner v = inner u"
    and tpv: "topic v = topic t" and cidv: "consumer_id v = consumer_id t"
    and envv: "env v = env t"
  shows "rebalance_pass v = (Return False, v) \<or> rebalance_pass v = (Raise NoNodeException, v)"
proof -
  from first obtain ps t1 slice H t2 t3 where
    cp: "current_participants t = (Return ps, t1)"
    and sl: "decide_slice (topic t1) (consumer_id t1) ps = Inr slice"
    and ne: "remdups slice \<noteq> []"
    and gh: "get_held_partitions t1 = (Return H, t1)"
    and rm: "remove_partitions (set_order (env t1) (set_diff H (remdups slice))) t1 = (Return (), t2)"
    and ad: "add_partitions (set_order (env t2) (set_diff (remdups slice) H)) t2 = (Return (), t3)"
    and su: "(if set (remdups slice) \<noteq> set (held_partitions t3)
      then setup_internal_consumer (set_order (env t3) (remdups slice)) t3
      else (Return (), t3)) = (Return (), u)"
    by (rule rebalance_pass_complete)
  let ?A = "remdups slice"
  let ?me = "consumer_id t"
  let ?d = "t_partitions (topic t)"
  note f1 = registry_step_fields[OF current_participants_registry[OF cp]]
  note f2 = registry_step_fields[OF remove_partitions_registry[OF rm]]
  note f3 = registry_step_fields[OF add_partitions_registry[OF ad]]
  have e1: "env t1 = env t" and e2: "env t2 = env t" and e3: "env t3 = env t"
    using f1 f2 f3 by simp_all
  have c1: "consumer_id t1 = ?me" and c2: "consumer_id t2 = ?me"
    using f1 f2 by simp_all
  have tp1: "topic t1 = topic t" using f1 by simp
  from get_held_partitions_Return[OF gh] c1 tp1 obtain zk1 owners where
    z1: "zookeeper t1 = Some zk1" and o1: "zk_owners zk1 = Some owners"
    and own1: "\<forall>slug. (slug, ?me) \<in> set owners \<longrightarrow>
                (\<exists>i. slug_partition_id slug = Inr i \<and> i \<in> dom (map_of ?d))"
    and Hset: "set H = {p. \<exists>slug i. (slug, ?me) \<in> set owners \<and>
                      slug_partition_id slug = Inr i \<and> map_of ?d i = Some p}"
    by auto
  let ?D = "set_order (env t1) (set_diff H ?A)"
  let ?C = "set_order (env t2) (set_diff ?A H)"
  have Dset: "set ?D = set H - set ?A" using order e1 by (auto simp: set_diff_def)
  have Cset: "set ?C = set ?A - set H" using order e2 by (auto simp: set_diff_def)
  let ?O1 = "filter (\<lambda>(m, v). m \<notin> partition_slug ` set ?D) owners"
  let ?O2 = "?O1 @ map (\<lambda>p. (partition_slug p, ?me)) ?C"
  from remove_partitions_Return[OF rm z1 o1]
  have z2: "zookeeper t2 = Some (zk1\<lparr>zk_owners := Some ?O1\<rparr>)" .
  have "zk_owners (zk1\<lparr>zk_owners := Some ?O1\<rparr>) = Some ?O1" by simp
  from add_partitions_Return[OF ad z2 this] c2
  have z3: "zookeeper t3 = Some (zk1\<lparr>zk_owners := Some ?O2\<rparr>)" by simp
  have zu: "zookeeper u = zookeeper t3" and hu: "set (held_partitions u) = set ?A"
  proof -
    show "zookeeper u = zookeeper t3"
      using su setup_internal_consumer_result(2) by (auto split: if_splits)
    show "set (held_partitions u) = set ?A"
    proof (cases "set ?A \<noteq> set (held_partitions t3)")
      case True
      with su have "setup_internal_consumer (set_order (env t3) ?A) t3 = (Return (), u)" by simp
      from setup_internal_consumer_result(1)[OF this] order e3 show ?thesis by simp
    next
      case False
      with su show ?thesis by simp
    qed
  qed
  let ?zk2 = "zk1\<lparr>zk_owners := Some ?O2\<rparr>"
  have zv: "zookeeper v = Some ?zk2" using zkv zu z3 by simp
  have ov: "zk_owners ?zk2 = Some ?O2" by simp
  text \<open>participants\<close>
  from current_participants_registered[OF cp] obtain ps' where
    gp: "get_participants t1 = (Return ps', t1)" and ms: "mset ps' = mset ps"
    and self: "consumer_id t1 \<in> set ps'" by blast
  have "map_option zk_ids (zookeeper v) = map_option zk_ids (zookeeper t1)"
    using zv z1 by simp
  from get_participants_cong[OF gp this] tpv tp1
  have gpv: "get_participants v = (Return ps', v)" by simp
  have cpv: "current_participants v = (Return ps', v)"
    using gpv self c1 cidv by (intro current_participants_listed) simp_all
  have slv: "decide_slice (topic v) (consumer_id v) ps' = Inr slice"
    using decide_slice_mset_cong[OF ms, of "topic t" ?me] sl tp1 c1 tpv cidv by simp
  text \<open>partitions of the topic\<close>
  have Asub: "set ?A \<subseteq> set (partition_values (topic t))"
    using decide_slice_subset[OF sl] tp1 by simp
  have val: "slug_partition_id (partition_slug p) = Inr (p_id p) \<and> map_of ?d (p_id p) = Some p"
    if "p \<in> set (partition_values (topic t))" for p
    using that wf_topic_roundtrip[OF wf that] wf_topic_lookup[OF wf] by simp
  have looked: "p \<in> set (partition_values (topic t)) \<and> p_id p = i" if "map_of ?d i = Some p" for p i
    using that wf_topic_lookup[OF wf] by simp
  have Hsub: "set H \<subseteq> set (partition_values (topic t))"
    using Hset looked by auto
  text \<open>the registry read again\<close>
  have own2: "\<forall>slug. (slug, consumer_id v) \<in> set ?O2 \<longrightarrow>
                (\<exists>i. slug_partition_id slug = Inr i \<and> i \<in> dom (map_of (t_partitions (topic v))))"
  proof (intro allI impI)
    fix slug assume "(slug, consumer_id v) \<in> set ?O2"
    then consider "(slug, ?me) \<in> set owners" | p where "p \<in> set ?C" "slug = partition_slug p"
      using cidv by auto
    then show "\<exists>i. slug_partition_id slug = Inr i \<and> i \<in> dom (map_of (t_partitions (topic v)))"
    proof cases
      case 1
      with own1 tpv show ?thesis by simp
    next
      case 2
      then have "p \<in> set (partition_values (topic t))" using Cset Asub by auto
      from val[OF this] 2 tpv show ?thesis by auto
    qed
  qed
  from get_held_partitions_result[OF zv ov own2] cidv tpv obtain H2 where
    ghv: "get_held_partitions v = (Return H2, v)"
    and H2set: "set H2 = {p. \<exists>slug i. (slug, ?me) \<in> set ?O2 \<and>
                      slug_partition_id slug = Inr i \<and> map_of ?d i = Some p}"
    by auto
  have K1: "set ?A \<subseteq> set H2"
  proof
    fix p assume pA: "p \<in> set ?A"
    then have pv: "p \<in> set (partition_values (topic t))" using Asub by auto
    note vp = val[OF pv]
    show "p \<in> set H2"
    proof (cases "p \<in> set H")
      case True
      with Hset obtain slug i where s: "(slug, ?me) \<in> set owners"
        "slug_partition_id slug = Inr i" "map_of ?d i = Some p" by auto
      have "slug \<notin> partition_slug ` set ?D"
      proof
        assume "slug \<in> partition_slug ` set ?D"
        then obtain q where q: "q \<in> set ?D" "slug = partition_slug q" by auto
        then have qH: "q \<in> set H" and qA: "q \<notin> set ?A" using Dset by auto
        from qH Hsub have "q \<in> set (partition_values (topic t))" by auto
        from val[OF this] q(2) s(2) have "i = p_id q" "map_of ?d (p_id q) = Some q" by simp_all
        with s(3) have "p = q" by simp
        with pA qA show False by simp
      qed
      with s(1) have "(slug, ?me) \<in> set ?O2" by auto
      with s(2,3) H2set show ?thesis by blast
    next
      case False
      with pA Cset have "p \<in> set ?C" by simp
      then have "(partition_slug p, ?me) \<in> set ?O2" by auto
      with vp H2set show ?thesis by blast
    qed
  qed
  have K2: "partition_slug p \<notin> fst ` set ?O2" if pH2: "p \<in> set H2" and pA: "p \<notin> set ?A" for p
  proof -
    from pH2 H2set obtain slug i where s: "(slug, ?me) \<in> set ?O2"
      "slug_partition_id slug = Inr i" "map_of ?d i = Some p" by auto
    from looked[OF s(3)] have pv: "p \<in> set (partition_values (topic t))" and pi: "p_id p = i"
      by simp_all
    note vp = val[OF pv]
    have not_new: "partition_slug p \<noteq> partition_slug q" if "q \<in> set ?C" for q
    proof
      assume eq: "partition_slug p = partition_slug q"
      from that Cset Asub have qA: "q \<in> set ?A" and qv: "q \<in> set (partition_values (topic t))"
        by auto
      from val[OF qv] vp eq have "p = q" by simp
      with qA pA show False by simp
    qed
    from s(1) consider "(slug, ?me) \<in> set ?O1" | q where "q \<in> set ?C" "slug = partition_slug q"
      by auto
    then have "p \<in> set ?D"
    proof cases
      case 1
      then have "(slug, ?me) \<in> set owners" by simp
      with s(2,3) Hset have "p \<in> set H" by blast
      with pA Dset show ?thesis by simp
    next
      case 2
      then have qA: "q \<in> set ?A" and qv: "q \<in> set (partition_values (topic t))"
        using Cset Asub by auto
      from val[OF qv] 2(2) s(2) have "i = p_id q" "map_of ?d (p_id q) = Some q" by simp_all
      with s(3) have "p = q" by simp
      with qA pA show ?thesis by simp
    qed
    then have "partition_slug p \<notin> fst ` set ?O1" by auto
    moreover have "partition_slug p \<notin> fst ` set (map (\<lambda>p. (partition_slug p, ?me)) ?C)"
    proof
      assume "partition_slug p \<in> fst ` set (map (\<lambda>p. (partition_slug p, ?me)) ?C)"
      then obtain q where "q \<in> set ?C" "partition_slug p = partition_slug q" by auto
      with not_new show False by blast
    qed
    ultimately show ?thesis by auto
  qed
  show ?thesis
  proof (cases "set_diff H2 ?A = []")
    case True
    have "set_diff ?A H2 = []" using K1 by (auto simp: set_diff_def filter_empty_conv)
    moreover have "set_order (env v) [] = []" using order envv by (simp add: set_order_nil)
    moreover have "set ?A = set (held_partitions v)"
      using hu held_partitions_cong[OF inn] by simp
    ultimately have "rebalance_pass v = (Return False, v)"
      using cpv slv ne ghv True
      by (simp add: rebalance_pass_def and_then_def lift_def Let_def return_def)
    then show ?thesis by simp
  next
    case False
    have "set (set_order (env v) (set_diff H2 ?A)) = set (set_diff H2 ?A)"
      using order envv by simp
    with False obtain p rest where pr: "set_order (env v) (set_diff H2 ?A) = p # rest"
      by (cases "set_order (env v) (set_diff H2 ?A)") auto
    then have "p \<in> set (set_order (env v) (set_diff H2 ?A))" by simp
    then have "p \<in> set H2" "p \<notin> set ?A" using order envv by (auto simp: set_diff_def)
    from K2[OF this] have "zk_delete_owner (partition_slug p) v = (Raise NoNodeException, v)"
      using zv ov by (intro zk_delete_owner_missing) auto
    then have "remove_partitions (set_order (env v) (set_diff H2 ?A)) v
        = (Raise NoNodeException, v)"
      using pr by simp
    then have "rebalance_pass v = (Raise NoNodeException, v)"
      using cpv slv ne ghv
      by (simp add: rebalance_pass_def and_then_def lift_def Let_def return_def)
    then show ?thesis by simp
  qed
qed

lemma rebalance_loop_Return:
  assumes run: "rebalance_loop is s = (Return b, s')"
    and last: "is \<noteq> [] \<longrightarrow> int (last is) = rebalance_max_retries s - 1"
  shows "(is = [] \<and> b = False \<and> s' = s)
       \<or> (is \<noteq> [] \<and> (\<exists>t. loop_step s t \<and> rebalance_pass t = (Return b, s')))"
  using assms
proof (induction "is" arbitrary: s)
  case Nil
  then show ?case by simp
next
  case (Cons i rest)
  obtain r1 s1 where p: "rebalance_pass s = (r1, s1)" by force
  note st = rebalance_pass_registry[OF p]
  note f = registry_step_fields[OF st]
  show ?case
  proof (cases r1)
    case (Return b1)
    with Cons.prems(1) p have "b1 = b" "s1 = s'" by simp_all
    with p Return loop_step_refl show ?thesis by blast
  next
    case Blocked
    with Cons.prems(1) p show ?thesis by simp
  next
    case (Raise e)
    show ?thesis
    proof (cases "\<exists>q. e = PartitionOwnedError q")
      case False
      with Cons.prems(1) p Raise show ?thesis by (cases e) auto
    next
      case True
      then obtain q where q: "e = PartitionOwnedError q" by blast
      show ?thesis
      proof (cases "int i = rebalance_max_retries s1 - 1")
        case True
        with Cons.prems(1) p Raise q show ?thesis by simp
      next
        case False
        obtain r2 s2 where sl: "sleep (real i * (real_of_int (rebalance_backoff_ms s1) / 1000)) s1 = (r2, s2)"
          by force
        note st2 = sleep_loop_step[OF sl]
        note f2 = loop_step_fields[OF st2]
        show ?thesis
        proof (cases r2)
          case (Return u)
          with Cons.prems(1) p Raise q False sl have rec: "rebalance_loop rest s2 = (Return b, s')"
            by simp
          have "rest \<noteq> [] \<longrightarrow> int (last rest) = rebalance_max_retries s2 - 1"
            using Cons.prems(2) f(3) f2(3) by (auto split: if_splits)
          from Cons.IH[OF rec this] show ?thesis
          proof
            assume "rest = [] \<and> b = False \<and> s' = s2"
            with Cons.prems(2) False f(3) show ?thesis by simp
          next
            assume "rest \<noteq> [] \<and> (\<exists>t. loop_step s2 t \<and> rebalance_pass t = (Return b, s'))"
            then obtain t where t: "loop_step s2 t" "rebalance_pass t = (Return b, s')" by blast
            have "loop_step s t"
              using registry_step_loop_step[OF st] st2 t(1) by (blast intro: loop_step_trans)
            with t(2) show ?thesis by blast
          qed
        next
          case (Raise e2)
          with Cons.prems(1) p \<open>r1 = Raise e\<close> q False sl show ?thesis by simp
        next
          case Blocked
          with Cons.prems(1) p \<open>r1 = Raise e\<close> q False sl show ?thesis by simp
        qed
      qed
    qed
  qed
qed

lemma rebalance_split:
  assumes "rebalance a = (r, b)"
  obtains (failed) e where "inner a \<noteq> None" "commit_offsets a = (Raise e, b)" "r = Raise e"
  | (committed) a0 where "inner a \<noteq> None" "commit_offsets a = (Return (), a0)"
      "rebalance_locked a0 = (r, b)"
  | (none) "inner a = None" "rebalance_locked a = (r, b)"
proof (cases "inner a = None")
  case True
  with assms none show ?thesis by (simp add: rebalance_def and_then_def)
next
  case False
  obtain r0 a0 where c: "commit_offsets a = (r0, a0)" by force
  show ?thesis
  proof (cases r0)
    case (Return u)
    with assms False c committed show ?thesis by (simp add: rebalance_def and_then_def)
  next
    case (Raise e)
    with assms False c failed show ?thesis by (simp add: rebalance_def and_then_def)
  next
    case Blocked
    with commit_offsets_effect(1)[OF c] show ?thesis by simp
  qed
qed

text \<open>What the second run finds, in terms of a state \<open>a\<close> and the state \<open>b\<close> it ends in.\<close>

lemma rebalance_quiet_when_stopped:
  assumes "\<not> running a" and "\<not> rebalancing_lock a" and "rebalance a = (r, b)"
  shows "zookeeper b = zookeeper a \<and> inner b = inner a
       \<and> (\<exists>evs. trace b = trace a @ evs \<and> list_all (\<lambda>ev. \<not> is_registry_event ev) evs)"
  using assms(3)
proof (cases rule: rebalance_split)
  case (failed e)
  from commit_offsets_effect[OF failed(2)] show ?thesis by blast
next
  case (committed a0)
  note ce = commit_offsets_effect[OF committed(2)]
  from ce assms have "\<not> running a0" "\<not> rebalancing_lock a0" by simp_all
  from rebalance_locked_stopped[OF this(2,1)] committed(3)
  have b: "b = a0\<lparr>rebalancing_lock := False, trace := trace a0 @ [LockAcquire, LockRelease]\<rparr>"
    by simp
  from ce(3) obtain ec where ec: "trace a0 = trace a @ ec"
    "list_all (\<lambda>ev. \<not> is_registry_event ev) ec" by blast
  have tr: "trace b = trace a @ (ec @ [LockAcquire, LockRelease])" using b ec by simp
  have la: "list_all (\<lambda>ev. \<not> is_registry_event ev) (ec @ [LockAcquire, LockRelease])"
    using ec by simp
  have "zookeeper b = zookeeper a" "inner b = inner a" using b ce by simp_all
  with tr la show ?thesis by blast
next
  case none
  from rebalance_locked_stopped[OF assms(2,1)] none(2)
  have b: "b = a\<lparr>rebalancing_lock := False, trace := trace a @ [LockAcquire, LockRelease]\<rparr>"
    by simp
  have la: "list_all (\<lambda>ev. \<not> is_registry_event ev) [LockAcquire, LockRelease]" by simp
  have tr: "trace b = trace a @ [LockAcquire, LockRelease]" using b by simp
  have "zookeeper b = zookeeper a" "inner b = inner a" using b by simp_all
  with tr la show ?thesis by blast
qed

lemma rebalance_locked_quiet_pass:
  assumes free: "\<not> rebalancing_lock a" and run: "running a"
    and pass: "\<And>v. zookeeper v = zookeeper a \<Longrightarrow> inner v = inner a \<Longrightarrow> topic v = topic a
        \<Longrightarrow> consumer_id v = consumer_id a \<Longrightarrow> env v = env a
        \<Longrightarrow> rebalance_max_retries v = rebalance_max_retries a
        \<Longrightarrow> rebalance_loop [0..<nat (rebalance_max_retries a)] v = (Return False, v)
          \<or> rebalance_loop [0..<nat (rebalance_max_retries a)] v = (Raise NoNodeException, v)"
    and rl: "rebalance_locked a = (r, b)"
  shows "zookeeper b = zookeeper a \<and> inner b = inner a
       \<and> (\<exists>evs. trace b = trace a @ evs \<and> list_all (\<lambda>ev. \<not> is_registry_event ev) evs)"
proof -
  let ?v = "a\<lparr>rebalancing_lock := True, trace := trace a @ [LockAcquire]\<rparr>"
  have "rebalance_loop [0..<nat (rebalance_max_retries a)] ?v = (Return False, ?v)
      \<or> rebalance_loop [0..<nat (rebalance_max_retries a)] ?v = (Raise NoNodeException, ?v)"
    by (rule pass) simp_all
  then have b: "b = ?v\<lparr>rebalancing_lock := False, trace := trace ?v @ [LockRelease]\<rparr>"
  proof
    assume l: "rebalance_loop [0..<nat (rebalance_max_retries a)] ?v = (Return False, ?v)"
    from rebalance_locked_running[OF free run l] rl show ?thesis by simp
  next
    assume l: "rebalance_loop [0..<nat (rebalance_max_retries a)] ?v = (Raise NoNodeException, ?v)"
    from rebalance_locked_running[OF free run l] rl show ?thesis by simp
  qed
  have la: "list_all (\<lambda>ev. \<not> is_registry_event ev) [LockAcquire, LockRelease]" by simp
  have tr: "trace b = trace a @ [LockAcquire, LockRelease]" using b by simp
  have "zookeeper b = zookeeper a" "inner b = inner a" using b by simp_all
  with tr la show ?thesis by blast
qed

lemma rebalance_quiet_pass:
  assumes free: "\<not> rebalancing_lock a" and run: "running a"
    and pass: "\<And>v. zookeeper v = zookeeper a \<Longrightarrow> inner v = inner a \<Longrightarrow> topic v = topic a
        \<Longrightarrow> consumer_id v = consumer_id a \<Longrightarrow> env v = env a
        \<Longrightarrow> rebalance_max_retries v = rebalance_max_retries a
        \<Longrightarrow> rebalance_loop [0..<nat (rebalance_max_retries a)] v = (Return False, v)
          \<or> rebalance_loop [0..<nat (rebalance_max_retries a)] v = (Raise NoNodeException, v)"
    and rb: "rebalance a = (r, b)"
  shows "zookeeper b = zookeeper a \<and> inner b = inner a
       \<and> (\<exists>evs. trace b = trace a @ evs \<and> list_all (\<lambda>ev. \<not> is_registry_event ev) evs)"
  using rb
proof (cases rule: rebalance_split)
  case (failed e)
  from commit_offsets_effect[OF failed(2)] show ?thesis by blast
next
  case (committed a0)
  note ce = commit_offsets_effect[OF committed(2)]
  from ce free run have f0: "\<not> rebalancing_lock a0" and r0: "running a0" by simp_all
  have "zookeeper b = zookeeper a0 \<and> inner b = inner a0
       \<and> (\<exists>evs. trace b = trace a0 @ evs \<and> list_all (\<lambda>ev. \<not> is_registry_event ev) evs)"
  proof (rule rebalance_locked_quiet_pass[OF f0 r0 _ committed(3)])
    fix v :: consumer
    assume "zookeeper v = zookeeper a0" "inner v = inner a0" "topic v = topic a0"
      "consumer_id v = consumer_id a0" "env v = env a0"
      "rebalance_max_retries v = rebalance_max_retries a0"
    with ce have "zookeeper v = zookeeper a" "inner v = inner a" "topic v = topic a"
      "consumer_id v = consumer_id a" "env v = env a"
      "rebalance_max_retries v = rebalance_max_retries a" by simp_all
    then have "rebalance_loop [0..<nat (rebalance_max_retries a)] v = (Return False, v)
          \<or> rebalance_loop [0..<nat (rebalance_max_retries a)] v = (Raise NoNodeException, v)"
      by (rule pass)
    with ce(7)
    show "rebalance_loop [0..<nat (rebalance_max_retries a0)] v = (Return False, v)
          \<or> rebalance_loop [0..<nat (rebalance_max_retries a0)] v = (Raise NoNodeException, v)"
      by simp
  qed
  then obtain evs where e: "zookeeper b = zookeeper a0" "inner b = inner a0"
    "trace b = trace a0 @ evs" "list_all (\<lambda>ev. \<not> is_registry_event ev) evs" by blast
  from ce(3) obtain ec where ec: "trace a0 = trace a @ ec"
    "list_all (\<lambda>ev. \<not> is_registry_event ev) ec" by blast
  have tr: "trace b = trace a @ (ec @ evs)" using e(3) ec(1) by simp
  have la: "list_all (\<lambda>ev. \<not> is_registry_event ev) (ec @ evs)" using e(4) ec(2) by simp
  have "zookeeper b = zookeeper a" "inner b = inner a" using e(1,2) ce(4,5) by simp_all
  with tr la show ?thesis by blast
next
  case none
  from rebalance_locked_quiet_pass[OF free run pass none(2)] show ?thesis by blast
qed

section \<open>Claim about running the rebalance twice\<close>

text \<open>
  Claim C8. Take a well-formed topic, a world that iterates a set over exactly its
  elements, and a member whose lock is free. If \<^verbatim>\<open>_rebalance\<close> returns normally and is run
  again in the state it left (nobody else acted, so the participants and the partitions
  are the same), then the second run leaves the coordinator as it was, ownership records
  included, leaves the inner consumer as it was, and its trace has no registry event: no
  ownership record created or deleted, no inner consumer stopped or created.
\<close>

theorem rebalance_twice_changes_nothing:
  assumes wf: "wf_topic (topic s)"
    and order: "\<forall>xs. set (set_order (env s) xs) = set xs"
    and free: "\<not> rebalancing_lock s"
    and first: "rebalance s = (Return (), s1)"
    and second: "rebalance s1 = (r2, s2)"
  shows "zookeeper s2 = zookeeper s1 \<and> inner s2 = inner s1
       \<and> list_all (\<lambda>ev. \<not> is_registry_event ev) (new_events s1 s2)"
proof -
  have "\<exists>s0. rebalance_locked s0 = (Return (), s1) \<and> \<not> rebalancing_lock s0
          \<and> topic s0 = topic s \<and> env s0 = env s"
    using first
  proof (cases rule: rebalance_split)
    case (failed e)
    then show ?thesis by simp
  next
    case (committed a0)
    from commit_offsets_effect[OF committed(2)] committed(3) free show ?thesis by auto
  next
    case none
    with free show ?thesis by auto
  qed
  then obtain s0 where rl: "rebalance_locked s0 = (Return (), s1)"
    and free0: "\<not> rebalancing_lock s0" and tp0: "topic s0 = topic s" and env0: "env s0 = env s"
    by blast
  have run0: "running s0"
  proof (rule ccontr)
    assume "\<not> running s0"
    from rebalance_locked_stopped[OF free0 this] rl show False by simp
  qed
  let ?l0 = "s0\<lparr>rebalancing_lock := True, trace := trace s0 @ [LockAcquire]\<rparr>"
  let ?is = "[0..<nat (rebalance_max_retries s0)]"
  obtain rL sL where loop: "rebalance_loop ?is ?l0 = (rL, sL)" by force
  let ?s3 = "sL\<lparr>rebalancing_lock := False, trace := trace sL @ [LockRelease]\<rparr>"
  note unf = rebalance_locked_running[OF free0 run0 loop]
  note lf = loop_step_fields[OF rebalance_loop_loop_step[OF loop]]
  have quiet: "zookeeper s2 = zookeeper s1 \<and> inner s2 = inner s1
       \<and> (\<exists>evs. trace s2 = trace s1 @ evs \<and> list_all (\<lambda>ev. \<not> is_registry_event ev) evs)"
  proof (cases rL)
    case Blocked
    with unf rl show ?thesis by simp
  next
    case (Raise e)
    with unf rl show ?thesis by simp
  next
    case (Return should_stop)
    show ?thesis
    proof (cases should_stop)
      case True
      with unf rl Return have st: "stop ?s3 = (Return (), s1)" by simp
      have "\<not> rebalancing_lock ?s3" by simp
      from stop_effect(2,3)[OF this st] second show ?thesis
        by (intro rebalance_quiet_when_stopped)
    next
      case False
      with unf rl Return have s1: "s1 = ?s3" by simp
      have free1: "\<not> rebalancing_lock s1" and run1: "running s1"
        using s1 lf run0 by simp_all
      have max1: "rebalance_max_retries s1 = rebalance_max_retries s0" using s1 lf by simp
      have lastc: "?is \<noteq> [] \<longrightarrow> int (last ?is) = rebalance_max_retries ?l0 - 1"
        by auto
      from Return False loop have loopF: "rebalance_loop ?is ?l0 = (Return False, sL)" by simp
      from rebalance_loop_Return[OF loopF lastc]
      consider (empty) "?is = []" "sL = ?l0"
        | (passed) t where "?is \<noteq> []" "loop_step ?l0 t"
            "rebalance_pass t = (Return False, sL)"
        by blast
      then show ?thesis
      proof cases
        case empty
        then have emp: "[0..<nat (rebalance_max_retries s1)] = []" using max1 by simp
        show ?thesis
        proof (rule rebalance_quiet_pass[OF free1 run1 _ second])
          fix v :: consumer
          show "rebalance_loop [0..<nat (rebalance_max_retries s1)] v = (Return False, v)
              \<or> rebalance_loop [0..<nat (rebalance_max_retries s1)] v = (Raise NoNodeException, v)"
            using emp by simp
        qed
      next
        case passed
        note ne = passed(1) and lt = passed(2) and pass = passed(3)
        note tf = loop_step_fields[OF lt]
        note pf = registry_step_fields[OF rebalance_pass_registry[OF pass]]
        have wft: "wf_topic (topic t)" using wf tf tp0 by simp
        have ordt: "\<forall>xs. set (set_order (env t) xs) = set xs" using order tf env0 by simp
        from ne max1 have cons: "[0..<nat (rebalance_max_retries s1)]
            = 0 # [1..<nat (rebalance_max_retries s1)]"
          by (simp add: upt_conv_Cons)
        show ?thesis
        proof (rule rebalance_quiet_pass[OF free1 run1 _ second])
          fix v :: consumer
          assume v: "zookeeper v = zookeeper s1" "inner v = inner s1" "topic v = topic s1"
            "consumer_id v = consumer_id s1" "env v = env s1"
            "rebalance_max_retries v = rebalance_max_retries s1"
          have "rebalance_pass v = (Return False, v) \<or> rebalance_pass v = (Raise NoNodeException, v)"
            using v s1 pf by (intro second_pass_changes_nothing[OF wft ordt pass]) simp_all
          then show "rebalance_loop [0..<nat (rebalance_max_retries s1)] v = (Return False, v)
              \<or> rebalance_loop [0..<nat (rebalance_max_retries s1)] v = (Raise NoNodeException, v)"
            unfolding cons by auto
        qed
      qed
    qed
  qed
  then obtain evs where "zookeeper s2 = zookeeper s1" "inner s2 = inner s1"
    "trace s2 = trace s1 @ evs" "list_all (\<lambda>ev. \<not> is_registry_event ev) evs" by blast
  moreover from this(3) have "new_events s1 s2 = evs" by (rule new_events_eqI)
  ultimately show ?thesis by simp
qed

text \<open>
  The theorem at member \<open>b\<close> that claims its free partition in the first run: the second
  run commits, takes and releases the lock, and does nothing else.
\<close>

theorem rebalance_twice_changes_nothing_witness:
  "wf_topic (topic ex_joining)
   \<and> (\<forall>xs. set (set_order (env ex_joining) xs) = set xs)
   \<and> \<not> rebalancing_lock ex_joining
   \<and> fst (rebalance ex_joining) = Return ()
   \<and> new_events ex_joining (snd (rebalance ex_joining))
       = [LockAcquire, ZkCreate (OwnerNode ''0-2'') ''b'',
          InnerCreate [ex_partition 2] False, LockRelease]
   \<and> fst (rebalance (snd (rebalance ex_joining))) = Return ()
   \<and> zookeeper (snd (rebalance (snd (rebalance ex_joining))))
       = zookeeper (snd (rebalance ex_joining))
   \<and> inner (snd (rebalance (snd (rebalance ex_joining)))) = inner (snd (rebalance ex_joining))
   \<and> new_events (snd (rebalance ex_joining)) (snd (rebalance (snd (rebalance ex_joining))))
       = [InnerCommit, LockAcquire, LockRelease]"
proof -
  let ?s1 = "snd (rebalance ex_joining)"
  let ?s2 = "snd (rebalance ?s1)"
  have wf: "wf_topic (topic ex_joining)" by code_simp
  have order: "\<forall>xs. set (set_order (env ex_joining) xs) = set xs"
    by (simp add: ex_joining_def ex_consumer_def init_def Let_def ex_world_def)
  have free: "\<not> rebalancing_lock ex_joining" by code_simp
  have r1: "fst (rebalance ex_joining) = Return ()" by code_simp
  have e1: "new_events ex_joining ?s1
       = [LockAcquire, ZkCreate (OwnerNode ''0-2'') ''b'',
          InnerCreate [ex_partition 2] False, LockRelease]" by code_simp
  have r2: "fst (rebalance ?s1) = Return ()" by code_simp
  have e2: "new_events ?s1 ?s2 = [InnerCommit, LockAcquire, LockRelease]" by code_simp
  have first: "rebalance ex_joining = (Return (), ?s1)" using r1 by (metis prod.collapse)
  have second: "rebalance ?s1 = (Return (), ?s2)" using r2 by (metis prod.collapse)
  from rebalance_twice_changes_nothing[OF wf order free first second]
  have "zookeeper ?s2 = zookeeper ?s1 \<and> inner ?s2 = inner ?s1" by simp
  with wf order free r1 e1 r2 e2 show ?thesis by blast
qed

section \<open>Claim about the properties without an inner consumer\<close>

lemma zk_delete_owner_inner: "zk_delete_owner n a = (x, b) \<Longrightarrow> inner b = inner a"
  by (auto simp: zk_delete_owner_def zk_client_def zk_put_def emit_def and_then_def
      raise_def split: option.splits if_splits)

lemma zk_create_owner_inner: "zk_create_owner n v a = (x, b) \<Longrightarrow> inner b = inner a"
  by (auto simp: zk_create_owner_def zk_client_def zk_put_def emit_def and_then_def
      raise_def split: option.splits if_splits)

lemma remove_partitions_inner: "remove_partitions ps a = (x, b) \<Longrightarrow> inner b = inner a"
proof (induction ps arbitrary: a)
  case Nil
  then show ?case by simp
next
  case (Cons p ps)
  obtain r1 s1 where d: "zk_delete_owner (partition_slug p) a = (r1, s1)" by force
  with Cons zk_delete_owner_inner[OF d] show ?case by (cases r1) auto
qed

lemma add_partitions_inner: "add_partitions ps a = (x, b) \<Longrightarrow> inner b = inner a"
proof (induction ps arbitrary: a)
  case Nil
  then show ?case by simp
next
  case (Cons p ps)
  obtain r1 s1 where d: "zk_create_owner (partition_slug p) (consumer_id a) a = (r1, s1)"
    by force
  note i = zk_create_owner_inner[OF d]
  show ?case
  proof (cases r1)
    case (Return u)
    with Cons d i show ?thesis by auto
  next
    case (Raise e)
    with Cons.prems d i show ?thesis by (cases e) auto
  next
    case Blocked
    with Cons.prems d i show ?thesis by simp
  qed
qed

lemma setup_internal_consumer_returns:
  "setup_internal_consumer parts s = (r, s') \<Longrightarrow> r = Return ()"
  by (auto simp: setup_internal_consumer_def inner_stop_def and_then_def split: option.splits)

lemma rebalance_pass_keeps_inner:
  assumes "rebalance_pass s = (r, s')" and "r \<noteq> Return False"
  shows "inner s' = inner s"
  using assms(1)[unfolded rebalance_pass_def]
proof (cases rule: and_then_cases)
  case (ret ps t1)
  note i1 = current_participants_keeps_owners(2)[OF ret(1)]
  from ret(2) show ?thesis
  proof (cases rule: and_then_cases)
    case (ret slice t1')
    from ret(1) have t1': "t1' = t1" by (auto simp: lift_def split: sum.splits)
    show ?thesis
    proof (cases "remdups slice = []")
      case True
      with ret(2) t1' i1 show ?thesis by (simp add: Let_def return_def)
    next
      case False
      with ret(2) t1' have rest: "and_then get_held_partitions (\<lambda>current_zk_parts.
            and_then (\<lambda>s. remove_partitions
                             (set_order (env s) (set_diff current_zk_parts (remdups slice))) s) (\<lambda>_.
            and_then (\<lambda>s. add_partitions
                             (set_order (env s) (set_diff (remdups slice) current_zk_parts)) s) (\<lambda>_.
            and_then (\<lambda>s. if set (remdups slice) \<noteq> set (held_partitions s)
                           then setup_internal_consumer (set_order (env s) (remdups slice)) s
                           else (Return (), s)) (\<lambda>_.
            return False)))) t1 = (r, s')"
        by (simp add: Let_def)
      from rest show ?thesis
      proof (cases rule: and_then_cases)
        case (ret H t1'')
        from ret(1) have t1'': "t1'' = t1" by (rule get_held_partitions_same)
        from ret(2)[unfolded t1''] show ?thesis
        proof (cases rule: and_then_cases)
          case (ret u1 t2)
          note i2 = remove_partitions_inner[OF ret(1)]
          from ret(2) show ?thesis
          proof (cases rule: and_then_cases)
            case (ret u2 t3)
            note i3 = add_partitions_inner[OF ret(1)]
            from ret(2) show ?thesis
            proof (cases rule: and_then_cases)
              case (ret u3 u0)
              with assms(2) show ?thesis by (simp add: return_def)
            next
              case (exc e)
              then show ?thesis
                by (auto dest: setup_internal_consumer_returns split: if_splits)
            next
              case blk
              then show ?thesis
                by (auto dest: setup_internal_consumer_returns split: if_splits)
            qed
          next
            case (exc e)
            with add_partitions_inner[OF exc(1)] i2 i1 show ?thesis by simp
          next
            case blk
            with add_partitions_inner[OF blk(1)] i2 i1 show ?thesis by simp
          qed
        next
          case (exc e)
          with remove_partitions_inner[OF exc(1)] i1 show ?thesis by simp
        next
          case blk
          with remove_partitions_inner[OF blk(1)] i1 show ?thesis by simp
        qed
      next
        case (exc e)
        with get_held_partitions_same[OF exc(1)] i1 show ?thesis by simp
      next
        case blk
        with get_held_partitions_same[OF blk(1)] i1 show ?thesis by simp
      qed
    qed
  next
    case (exc e)
    then have "s' = t1" by (auto simp: lift_def split: sum.splits)
    with i1 show ?thesis by simp
  next
    case blk
    then have "s' = t1" by (auto simp: lift_def split: sum.splits)
    with i1 show ?thesis by simp
  qed
next
  case (exc e)
  from current_participants_keeps_owners(2)[OF exc(1)] show ?thesis .
next
  case blk
  from current_participants_keeps_owners(2)[OF blk(1)] show ?thesis .
qed

lemma sleep_inner: "sleep d s = (r, s') \<Longrightarrow> inner s' = inner s"
  by (auto simp: sleep_def split: if_splits)

lemma rebalance_loop_keeps_inner:
  assumes "rebalance_loop is s = (r, s')" and "r \<noteq> Return False"
  shows "inner s' = inner s"
  using assms
proof (induction "is" arbitrary: s)
  case Nil
  then show ?case by simp
next
  case (Cons i rest)
  obtain r1 s1 where p: "rebalance_pass s = (r1, s1)" by force
  show ?case
  proof (cases "\<exists>q. r1 = Raise (PartitionOwnedError q)")
    case True
    then obtain q where q: "r1 = Raise (PartitionOwnedError q)" by blast
    then have "r1 \<noteq> Return False" by simp
    from rebalance_pass_keeps_inner[OF p this] have i1: "inner s1 = inner s" .
    show ?thesis
    proof (cases "int i = rebalance_max_retries s1 - 1")
      case True
      with Cons.prems p q i1 show ?thesis by simp
    next
      case False
      obtain r2 s2 where sl: "sleep (real i * (real_of_int (rebalance_backoff_ms s1) / 1000)) s1 = (r2, s2)"
        by force
      note i2 = sleep_inner[OF sl]
      show ?thesis
      proof (cases r2)
        case (Return u)
        with Cons.prems(1) p q False sl have "rebalance_loop rest s2 = (r, s')" by simp
        from Cons.IH[OF this Cons.prems(2)] i1 i2 show ?thesis by simp
      next
        case (Raise e)
        with Cons.prems(1) p q False sl i1 i2 show ?thesis by simp
      next
        case Blocked
        with Cons.prems(1) p q False sl i1 i2 show ?thesis by simp
      qed
    qed
  next
    case False
    with Cons.prems(1) p have "r = r1" "s' = s1"
      by (cases r1; auto split: error.splits)+
    with p Cons.prems(2) have "rebalance_pass s = (r, s')" "r \<noteq> Return False" by simp_all
    then show ?thesis by (rule rebalance_pass_keeps_inner)
  qed
qed

lemma failed_rebalance_creates_no_inner:
  assumes "rebalance s = (r, s')" and "r \<noteq> Return ()" and "inner s = None"
  shows "inner s' = None"
proof -
  from assms have rl: "rebalance_locked s = (r, s')"
    by (simp add: rebalance_def and_then_def)
  show ?thesis
  proof (cases "rebalancing_lock s")
    case True
    with rl assms(3) show ?thesis
      by (auto simp: rebalance_locked_def and_then_def with_lock_def)
  next
    case free: False
    show ?thesis
    proof (cases "running s")
      case False
      from rebalance_locked_stopped[OF free False] rl assms(3) show ?thesis by auto
    next
      case True
      let ?l0 = "s\<lparr>rebalancing_lock := True, trace := trace s @ [LockAcquire]\<rparr>"
      obtain rL sL where loop: "rebalance_loop [0..<nat (rebalance_max_retries s)] ?l0 = (rL, sL)"
        by force
      note unf = rebalance_locked_running[OF free True loop]
      show ?thesis
      proof (cases "rL = Return False")
        case True
        with unf rl assms(2) show ?thesis by simp
      next
        case False
        from rebalance_loop_keeps_inner[OF loop False] assms(3) have iL: "inner sL = None" by simp
        show ?thesis
        proof (cases rL)
          case (Return b)
          with False have "b" by simp
          with unf rl Return have "stop (sL\<lparr>rebalancing_lock := False,
              trace := trace sL @ [LockRelease]\<rparr>) = (r, s')" by simp
          from stop_keeps_inner_presence[OF this] iL show ?thesis by simp
        next
          case (Raise e')
          with unf rl iL show ?thesis by auto
        next
          case Blocked
          with unf rl iL show ?thesis by auto
        qed
      qed
    qed
  qed
qed

lemma and_then_assoc:
  "and_then (and_then m f) g = and_then m (\<lambda>x. and_then (f x) g)"
  by (rule ext) (simp add: and_then_def split: prod.splits result.splits)

lemma start_body_prefix:
  "start_body = and_then start_prefix (\<lambda>_. and_then rebalance (\<lambda>_. setup_checker_worker))"
  by (simp add: start_body_def start_prefix_def and_then_assoc)

lemma setup_zookeeper_inner: "setup_zookeeper s = (r, s') \<Longrightarrow> inner s' = inner s"
  by (auto simp: setup_zookeeper_def Let_def split: option.splits)

lemma zk_ensure_owners_path_inner: "zk_ensure_owners_path s = (r, s') \<Longrightarrow> inner s' = inner s"
  by (auto simp: zk_ensure_owners_path_def zk_client_def zk_put_def and_then_def return_def
      split: option.splits)

lemma add_self_inner: "add_self s = (r, s') \<Longrightarrow> inner s' = inner s"
  by (auto simp: add_self_def get_participants_def zk_create_id_def zk_client_def zk_put_def
      emit_def and_then_def raise_def Let_def split: option.splits if_splits)

lemma set_watches_inner: "set_watches s = (r, s') \<Longrightarrow> inner s' = inner s"
  by (auto simp: set_watches_def Let_def split: option.splits if_splits)

lemma setup_checker_worker_inner: "setup_checker_worker s = (r, s') \<Longrightarrow> inner s' = inner s"
  by (auto simp: setup_checker_worker_def split: option.splits)

lemma start_prefix_inner:
  assumes "start_prefix s = (r, s')"
  shows "inner s' = inner s"
  using assms unfolding start_prefix_def
  by (elim and_then_cases)
     (auto dest!: setup_zookeeper_inner zk_ensure_owners_path_inner add_self_inner
        set_watches_inner split: if_splits)

lemma handler_keeps_inner_presence:
  assumes "and_then (emit LogStartError) (\<lambda>_. stop) a = (r, s')"
  shows "inner s' = None \<longleftrightarrow> inner a = None"
proof -
  from assms have "stop (a\<lparr>trace := trace a @ [LogStartError]\<rparr>) = (r, s')"
    by (simp add: and_then_def emit_def)
  from stop_keeps_inner_presence[OF this] show ?thesis by simp
qed

lemma start_holds_inner_by_rebalance:
  assumes none: "inner s = None" and st: "start s = (r, s')" and held: "inner s' \<noteq> None"
  shows "\<exists>a b. start_prefix s = (Return (), a) \<and> rebalance a = (Return (), b)
           \<and> inner a = None \<and> inner b \<noteq> None"
proof -
  obtain r1 a where pre: "start_prefix s = (r1, a)" by force
  from start_prefix_inner[OF pre] none have ia: "inner a = None" by simp
  note body = start_body_prefix
  show ?thesis
  proof (cases r1)
    case (Return u)
    obtain r2 b where reb: "rebalance a = (r2, b)" by force
    show ?thesis
    proof (cases "r2 = Return ()")
      case True
      obtain r3 c where chk: "setup_checker_worker b = (r3, c)" by force
      note ic = setup_checker_worker_inner[OF chk]
      from pre Return reb True chk have sb: "start_body s = (r3, c)"
        by (simp add: body and_then_def)
      have "inner s' = None \<longleftrightarrow> inner c = None"
      proof (cases r3)
        case (Return v)
        with sb st show ?thesis by (simp add: start_def catch_def)
      next
        case (Raise e)
        with sb st have "and_then (emit LogStartError) (\<lambda>_. stop) c = (r, s')"
          by (simp add: start_def catch_def)
        then show ?thesis by (rule handler_keeps_inner_presence)
      next
        case Blocked
        with sb st show ?thesis by (simp add: start_def catch_def)
      qed
      with held ic have "inner b \<noteq> None" by simp
      with pre Return reb True ia show ?thesis by (cases u) auto
    next
      case False
      from failed_rebalance_creates_no_inner[OF reb False ia] have ib: "inner b = None" .
      from pre Return reb False have sb: "start_body s = (r2, b)"
        by (cases r2) (simp_all add: body and_then_def)
      have "inner s' = None"
      proof (cases r2)
        case (Return v)
        with False show ?thesis by simp
      next
        case (Raise e)
        with sb st have "and_then (emit LogStartError) (\<lambda>_. stop) b = (r, s')"
          by (simp add: start_def catch_def)
        from handler_keeps_inner_presence[OF this] ib show ?thesis by simp
      next
        case Blocked
        with sb st ib show ?thesis by (simp add: start_def catch_def)
      qed
      with held show ?thesis by simp
    qed
  next
    case (Raise e)
    with pre have sb: "start_body s = (Raise e, a)" by (simp add: body and_then_def)
    with st have "and_then (emit LogStartError) (\<lambda>_. stop) a = (r, s')"
      by (simp add: start_def catch_def)
    from handler_keeps_inner_presence[OF this] ia held show ?thesis by simp
  next
    case Blocked
    with pre have sb: "start_body s = (Blocked, a)" by (simp add: body and_then_def)
    with st ia held show ?thesis by (simp add: start_def catch_def)
  qed
qed

lemma no_inner_public_calls:
  assumes "inner s = None"
  shows "inner (snd (commit_offsets s)) = None"
    and "inner (snd (reset_offsets s)) = None"
    and "consume fuel block s = Some (Raise NoPartitionsForConsumerException, s)"
  using assms
  by (auto simp: commit_offsets_def reset_offsets_def inner_commit_offsets_def
      raise_worker_exceptions_def and_then_def consume_def held_partitions_def partitions_def
      split: option.splits)

lemma partitions_None_iff: "partitions x = None \<longleftrightarrow> inner x = None"
  by (simp add: partitions_def split: option.splits)

lemma held_offsets_None_iff: "held_offsets x = Inr None \<longleftrightarrow> inner x = None"
  by (simp add: held_offsets_def split: option.splits)

text \<open>
  Claim C10, as amended. The properties \<^verbatim>\<open>partitions\<close> and \<^verbatim>\<open>held_offsets\<close> return
  \<^verbatim>\<open>None\<close> exactly when no inner consumer is held. That is the case before the first
  \<^verbatim>\<open>_rebalance\<close> that returns normally: for the object that \<^verbatim>\<open>__init__\<close> makes before
  it calls \<^verbatim>\<open>start\<close> (with \<^verbatim>\<open>auto_start\<close> the constructor goes on with \<^verbatim>\<open>start\<close> on that
  object), through every \<^verbatim>\<open>_rebalance\<close> that does not return normally, through every
  \<^verbatim>\<open>start\<close> whose \<^verbatim>\<open>_rebalance\<close> does not return normally, and through \<^verbatim>\<open>commit_offsets\<close>,
  \<^verbatim>\<open>reset_offsets\<close> and \<^verbatim>\<open>consume\<close>. \<^verbatim>\<open>stop\<close> does not release the inner consumer: after
  \<^verbatim>\<open>stop\<close> each property returns \<^verbatim>\<open>None\<close> exactly if it did before.
\<close>

theorem partitions_null_iff_no_inner_consumer:
  "(partitions s = None \<longleftrightarrow> inner s = None)
   \<and> (held_offsets s = Inr None \<longleftrightarrow> inner s = None)
   \<and> fst (init tp cid max_retries backoff_ms timeout_ms reset injected False w) = Return ()
   \<and> partitions (snd (init tp cid max_retries backoff_ms timeout_ms reset injected False w)) = None
   \<and> held_offsets (snd (init tp cid max_retries backoff_ms timeout_ms reset injected False w))
       = Inr None
   \<and> init tp cid max_retries backoff_ms timeout_ms reset injected True w
       = start (snd (init tp cid max_retries backoff_ms timeout_ms reset injected False w))
   \<and> (\<forall>r s'. inner s = None \<and> rebalance s = (r, s') \<and> r \<noteq> Return () \<longrightarrow>
         partitions s' = None \<and> held_offsets s' = Inr None)
   \<and> (\<forall>r s'. inner s = None \<and> start s = (r, s') \<and> partitions s' \<noteq> None \<longrightarrow>
         (\<exists>a b. start_prefix s = (Return (), a) \<and> rebalance a = (Return (), b)
                \<and> inner a = None \<and> inner b \<noteq> None))
   \<and> (inner s = None \<longrightarrow>
         partitions (snd (commit_offsets s)) = None
         \<and> partitions (snd (reset_offsets s)) = None
         \<and> (\<forall>fuel block.
               consume fuel block s = Some (Raise NoPartitionsForConsumerException, s)))
   \<and> (\<forall>r s'. stop s = (r, s') \<longrightarrow>
         (partitions s' = None \<longleftrightarrow> partitions s = None)
         \<and> (held_offsets s' = Inr None \<longleftrightarrow> held_offsets s = Inr None))"
proof -
  note p = partitions_None_iff
  note h = held_offsets_None_iff
  let ?new = "init tp cid max_retries backoff_ms timeout_ms reset injected False w"
  have c1: "partitions s = None \<longleftrightarrow> inner s = None" by (rule p)
  have c2: "held_offsets s = Inr None \<longleftrightarrow> inner s = None" by (rule h)
  have c3: "fst ?new = Return ()" by (simp add: init_def Let_def)
  have i: "inner (snd ?new) = None" by (simp add: init_def Let_def)
  have c4: "partitions (snd ?new) = None" using i by (simp add: p)
  have c5: "held_offsets (snd ?new) = Inr None" using i by (simp add: h)
  have c6: "init tp cid max_retries backoff_ms timeout_ms reset injected True w = start (snd ?new)"
    by (simp add: init_def Let_def)
  have c7: "\<forall>r s'. inner s = None \<and> rebalance s = (r, s') \<and> r \<noteq> Return () \<longrightarrow>
         partitions s' = None \<and> held_offsets s' = Inr None"
    using failed_rebalance_creates_no_inner[of s] by (simp add: p h)
  have c8: "\<forall>r s'. inner s = None \<and> start s = (r, s') \<and> partitions s' \<noteq> None \<longrightarrow>
         (\<exists>a b. start_prefix s = (Return (), a) \<and> rebalance a = (Return (), b)
                \<and> inner a = None \<and> inner b \<noteq> None)"
  proof (intro allI impI)
    fix r s'
    assume a: "inner s = None \<and> start s = (r, s') \<and> partitions s' \<noteq> None"
    then have "inner s = None" "start s = (r, s')" "inner s' \<noteq> None" by (simp_all add: p)
    then show "\<exists>a b. start_prefix s = (Return (), a) \<and> rebalance a = (Return (), b)
                \<and> inner a = None \<and> inner b \<noteq> None"
      by (rule start_holds_inner_by_rebalance)
  qed
  have c9: "inner s = None \<longrightarrow>
         partitions (snd (commit_offsets s)) = None
         \<and> partitions (snd (reset_offsets s)) = None
         \<and> (\<forall>fuel block.
               consume fuel block s = Some (Raise NoPartitionsForConsumerException, s))"
    using no_inner_public_calls[of s] by (simp add: p)
  have c10: "\<forall>r s'. stop s = (r, s') \<longrightarrow>
         (partitions s' = None \<longleftrightarrow> partitions s = None)
         \<and> (held_offsets s' = Inr None \<longleftrightarrow> held_offsets s = Inr None)"
    using stop_keeps_inner_presence[of s] by (simp add: p h)
  from c1 c2 c3 c4 c5 c6 c7 c8 c9 c10 show ?thesis by (intro conjI)
qed

text \<open>
  The theorem at the member \<open>ex_new\<close>: the constructor with \<^verbatim>\<open>auto_start\<close> is
  \<^verbatim>\<open>start\<close> on the new object, which holds no inner consumer; \<^verbatim>\<open>start\<close> leaves one,
  so its \<^verbatim>\<open>_rebalance\<close> returned normally; and it is still held after \<^verbatim>\<open>stop\<close>.
\<close>

theorem partitions_null_iff_no_inner_consumer_witness:
  "ex_default = start ex_new
   \<and> partitions ex_new = None
   \<and> held_offsets ex_new = Inr None
   \<and> inner (snd (start ex_new)) \<noteq> None
   \<and> (\<exists>a b. start_prefix ex_new = (Return (), a) \<and> rebalance a = (Return (), b)
            \<and> inner a = None \<and> inner b \<noteq> None)
   \<and> fst (stop (snd (start ex_new))) = Return ()
   \<and> partitions (snd (stop (snd (start ex_new)))) \<noteq> None
   \<and> held_offsets (snd (stop (snd (start ex_new)))) \<noteq> Inr None"
proof -
  have r: "fst (stop (snd (start ex_new))) = Return ()" by code_simp
  have i: "inner (snd (start ex_new)) \<noteq> None" by code_simp
  have n: "inner ex_new = None" by code_simp
  have st: "stop (snd (start ex_new)) = (Return (), snd (stop (snd (start ex_new))))"
    using r by (metis prod.collapse)
  have sn: "start ex_new = (fst (start ex_new), snd (start ex_new))" by simp
  note th = partitions_null_iff_no_inner_consumer[of "snd (start ex_new)" "ex_topic 3" "''b''"
      5 2000 "- 1" False None "ex_world (ex_zk [(''a'', ''t'')] [(''0-0'', ''a''), (''0-1'', ''a'')])"]
  note tn = partitions_null_iff_no_inner_consumer[of ex_new "ex_topic 3" "''b''"
      5 2000 "- 1" False None "ex_world (ex_zk [(''a'', ''t'')] [(''0-0'', ''a''), (''0-1'', ''a'')])"]
  from th have a: "partitions (snd (start ex_new)) = None \<longleftrightarrow> inner (snd (start ex_new)) = None"
    by (rule conjunct1)
  from th have b: "held_offsets (snd (start ex_new)) = Inr None
      \<longleftrightarrow> inner (snd (start ex_new)) = None"
    by (rule conjunct1[OF conjunct2])
  from th have p0: "partitions ex_new = None"
    unfolding ex_new_def by (rule conjunct1[OF conjunct2[OF conjunct2[OF conjunct2]]])
  from th have h0: "held_offsets ex_new = Inr None"
    unfolding ex_new_def by (rule conjunct1[OF conjunct2[OF conjunct2[OF conjunct2[OF conjunct2]]]])
  from th have d0: "ex_default = start ex_new"
    unfolding ex_new_def ex_default_def by (rule conjunct1[OF conjunct2[OF conjunct2[OF conjunct2[OF conjunct2[OF conjunct2]]]]])
  from tn have c: "\<forall>r s'. inner ex_new = None \<and> start ex_new = (r, s') \<and> partitions s' \<noteq> None \<longrightarrow>
         (\<exists>a b. start_prefix ex_new = (Return (), a) \<and> rebalance a = (Return (), b)
                \<and> inner a = None \<and> inner b \<noteq> None)"
    by (rule conjunct1[OF conjunct2[OF conjunct2[OF conjunct2[OF conjunct2[OF conjunct2[OF conjunct2[OF conjunct2]]]]]]])
  from a i have "partitions (snd (start ex_new)) \<noteq> None" by simp
  with c n sn have e: "\<exists>a b. start_prefix ex_new = (Return (), a) \<and> rebalance a = (Return (), b)
                \<and> inner a = None \<and> inner b \<noteq> None"
    by blast
  from th have f: "\<forall>r s'. stop (snd (start ex_new)) = (r, s') \<longrightarrow>
      (partitions s' = None \<longleftrightarrow> partitions (snd (start ex_new)) = None)
      \<and> (held_offsets s' = Inr None \<longleftrightarrow> held_offsets (snd (start ex_new)) = Inr None)"
    by (rule conjunct2[OF conjunct2[OF conjunct2[OF conjunct2[OF conjunct2[OF conjunct2[OF conjunct2[OF conjunct2[OF conjunct2]]]]]]]])
  from f st have g: "(partitions (snd (stop (snd (start ex_new)))) = None
        \<longleftrightarrow> partitions (snd (start ex_new)) = None)
      \<and> (held_offsets (snd (stop (snd (start ex_new)))) = Inr None
        \<longleftrightarrow> held_offsets (snd (start ex_new)) = Inr None)"
    by blast
  from a b g i
  have k: "partitions (snd (stop (snd (start ex_new)))) \<noteq> None
      \<and> held_offsets (snd (stop (snd (start ex_new)))) \<noteq> Inr None"
    by simp
  from d0 p0 h0 i e r k show ?thesis by (intro conjI) simp_all
qed

text \<open>
  Claim C10 as it was stated counts the time after \<^verbatim>\<open>stop\<close> among the times without an
  inner consumer. Here a member is constructed with \<^verbatim>\<open>auto_start\<close>, gets partition \<open>2\<close>
  and is stopped: \<^verbatim>\<open>partitions\<close> still returns the stopped inner consumer's partitions,
  and \<^verbatim>\<open>held_offsets\<close> does not return \<^verbatim>\<open>None\<close> either: it returns the offsets where a
  dict has \<^verbatim>\<open>itervalues\<close> and raises \<^verbatim>\<open>AttributeError\<close> where it has not.
\<close>

theorem partitions_not_null_after_stop:
  "fst ex_default = Return ()
   \<and> fst (stop (snd ex_default)) = Return ()
   \<and> running (snd (stop (snd ex_default))) = False
   \<and> partitions (snd (stop (snd ex_default))) = Some [(2, ex_partition 2)]
   \<and> held_offsets (snd (stop (snd ex_default))) = Inr (Some [(2, - 1)])
   \<and> fst (stop (snd ex_default_py3)) = Return ()
   \<and> partitions (snd (stop (snd ex_default_py3))) = Some [(2, ex_partition 2)]
   \<and> held_offsets (snd (stop (snd ex_default_py3))) = Inl AttributeError"
  by code_simp

end
